theory Spec2Isabelle
  imports Complex_Main
begin

section \<open>Data model of iksolver.h\<close>

text \<open>
  The C \<^verbatim>\<open>float\<close> is read as a real number: every statement below is about the
  program in exact arithmetic, and none is about the rounding, the underflow or the overflow
  of binary32. A division whose divisor is zero has no value there: every division of the
  source is the checked \<open>fdiv\<close> below, whose fault is \<open>DivByZero\<close> (IEEE arithmetic
  would go on with a NaN or an infinity).

  \<^verbatim>\<open>typedef struct { float x, y; } ik_vec2;\<close> The fields are called \<open>vx\<close> and \<open>vy\<close>,
  since a record field named \<open>x\<close> would capture every variable of that name.
\<close>

record ik_vec2 =
  vx :: real
  vy :: real

text \<open>
  A non-null \<^verbatim>\<open>ik_joint *\<close> is an address; \<open>None\<close> is \<^verbatim>\<open>NULL\<close>. The flexible array
  member \<^verbatim>\<open>children\<close> has exactly \<^verbatim>\<open>n_children\<close> slots (\<^verbatim>\<open>ik_new_joint\<close> allocates
  them so and nothing resizes them), so the model keeps the slots as a list and reads
  \<^verbatim>\<open>n_children\<close> as its length. The field \<^verbatim>\<open>length\<close> is called \<open>length_j\<close>.
\<close>

type_synonym addr = nat
type_synonym joint_ptr = "addr option"

record ik_joint =
  position :: ik_vec2
  length_j :: real
  parent :: joint_ptr
  children :: "joint_ptr list"

definition n_children :: "ik_joint \<Rightarrow> nat" where
  "n_children j = length (children j)"

type_synonym heap = "addr \<Rightarrow> ik_joint"

text \<open>
  The global \<^verbatim>\<open>ik_stack\<close>: the pointers between \<^verbatim>\<open>data\<close> and \<^verbatim>\<open>end\<close>, the top first.
  \<open>n_push\<close> and \<open>n_pop\<close> are ghost counters (not in the source): the calls of
  \<^verbatim>\<open>ik_stack_push\<close> and of \<^verbatim>\<open>ik_stack_pop\<close> so far.
\<close>

record ik_state =
  heap :: heap
  stack :: "addr list"
  n_push :: nat
  n_pop :: nat

text \<open>
  What the C program does outside its defined behaviour, and the end of the fuel that
  bounds the depth of the recursion (the C call stack).
\<close>

datatype fault = NullDeref | DivByZero | StackOverflow | OutOfBounds | OutOfFuel

definition IK_ERROR :: int where
  "IK_ERROR = 0"

definition IK_OK :: int where
  "IK_OK = 1"

definition IK_STACK_SIZE :: nat where
  "IK_STACK_SIZE = 1024"

section \<open>Internal functions\<close>

text \<open>The division \<^verbatim>\<open>a / b\<close> of two floats.\<close>

definition fdiv :: "real \<Rightarrow> real \<Rightarrow> fault + real" where
  "fdiv a b = (if b = 0 then Inl DivByZero else Inr (a / b))"

text \<open>\<^verbatim>\<open>static inline float length(float x, float y)\<close>\<close>

definition length_xy :: "real \<Rightarrow> real \<Rightarrow> real" where
  "length_xy x y = sqrt (x * x + y * y)"

text \<open>The write \<^verbatim>\<open>joint->position = v\<close>.\<close>

definition set_position :: "addr \<Rightarrow> ik_vec2 \<Rightarrow> heap \<Rightarrow> heap" where
  "set_position a v h = h(a := (h a)\<lparr>position := v\<rparr>)"

text \<open>
  \<^verbatim>\<open>ik_stack_push\<close> has no bounds check: a push onto the full array writes past it.
\<close>

definition ik_stack_push :: "addr \<Rightarrow> ik_state \<Rightarrow> fault + ik_state" where
  "ik_stack_push joint s =
     (if length (stack s) < IK_STACK_SIZE
      then Inr (s\<lparr>stack := joint # stack s, n_push := Suc (n_push s)\<rparr>)
      else Inl StackOverflow)"

definition ik_stack_pop :: "ik_state \<Rightarrow> joint_ptr \<times> ik_state" where
  "ik_stack_pop s =
     (case stack s of
        [] \<Rightarrow> (None, s\<lparr>n_pop := Suc (n_pop s)\<rparr>)
      | joint # rest \<Rightarrow> (Some joint, s\<lparr>stack := rest, n_pop := Suc (n_pop s)\<rparr>))"

definition ik_stack_top :: "ik_state \<Rightarrow> joint_ptr" where
  "ik_stack_top s = (case stack s of [] \<Rightarrow> None | joint # rest \<Rightarrow> Some joint)"

text \<open>\<^verbatim>\<open>struct ik_matrix { float C, S, P; };\<close>\<close>

record ik_matrix =
  mat_C :: real
  mat_S :: real
  mat_P :: real

text \<open>
  A \<^verbatim>\<open>for\<close> loop over the child slots, in slot order, stopping at the first fault.
  None of the loops' bodies writes a \<^verbatim>\<open>children\<close> array, so the slots are read once.
\<close>

fun for_each :: "('a \<Rightarrow> 's \<Rightarrow> fault + 's) \<Rightarrow> 'a list \<Rightarrow> 's \<Rightarrow> fault + 's" where
  "for_each f [] s = Inr s"
| "for_each f (c # cs) s = (case f c s of Inl e \<Rightarrow> Inl e | Inr s' \<Rightarrow> for_each f cs s')"

text \<open>The new position \<^verbatim>\<open>ik_align_branch_precalc\<close> computes for one joint.\<close>

definition align_point :: "ik_vec2 \<Rightarrow> ik_matrix \<Rightarrow> ik_vec2 \<Rightarrow> ik_vec2 \<Rightarrow> ik_vec2" where
  "align_point pivot mat offset p =
     (let px = vx p + vx offset;
          py = vy p + vy offset;
          px = px - vx pivot;
          py = py - vy pivot;
          tmp_x = px;
          px = (mat_C mat) * px + (- mat_P mat * mat_S mat) * py;
          py = (mat_P mat * mat_S mat) * tmp_x + (mat_C mat) * py
      in \<lparr>vx = px + vx pivot, vy = py + vy pivot\<rparr>)"

fun ik_align_branch_precalc ::
  "nat \<Rightarrow> joint_ptr \<Rightarrow> ik_vec2 \<Rightarrow> ik_matrix \<Rightarrow> ik_vec2 \<Rightarrow> heap \<Rightarrow> fault + heap" where
  "ik_align_branch_precalc 0 rootj pivot mat offset h = Inl OutOfFuel"
| "ik_align_branch_precalc (Suc fuel) None pivot mat offset h = Inl NullDeref"
| "ik_align_branch_precalc (Suc fuel) (Some r) pivot mat offset h =
     (let h1 = set_position r (align_point pivot mat offset (position (h r))) h
      in for_each (\<lambda>child. ik_align_branch_precalc fuel child pivot mat offset)
           (children (h1 r)) h1)"

definition ik_align_branch :: "nat \<Rightarrow> joint_ptr \<Rightarrow> ik_vec2 \<Rightarrow> ik_vec2 \<Rightarrow> heap \<Rightarrow> fault + heap" where
  "ik_align_branch fuel rootj from_v to_v h =
     (let C_denom = length_xy (vx from_v) (vy from_v) * length_xy (vx to_v) (vy to_v)
      in case fdiv (vx from_v * vx to_v + vy from_v * vy to_v) C_denom of
           Inl e \<Rightarrow> Inl e
         | Inr c \<Rightarrow>
           (let S2 = 1 - c * c;
                s = sqrt (if S2 > 0 then S2 else 0);
                p = (if vx from_v * vy to_v - vy from_v * vx to_v > 0 then 1 else - 1);
                mat = \<lparr>mat_C = c, mat_S = s, mat_P = p\<rparr>;
                offset = \<lparr>vx = vx to_v - vx from_v, vy = vy to_v - vy from_v\<rparr>
            in case rootj of
                 None \<Rightarrow> Inl NullDeref
               | Some r \<Rightarrow>
                   (case parent (h r) of
                      None \<Rightarrow> Inl NullDeref
                    | Some pr \<Rightarrow>
                        ik_align_branch_precalc fuel (Some r) (position (h pr)) mat offset h)))"

fun ik_align_branch_only_translate :: "nat \<Rightarrow> joint_ptr \<Rightarrow> real \<Rightarrow> real \<Rightarrow> heap \<Rightarrow> fault + heap" where
  "ik_align_branch_only_translate 0 rootj offset_x offset_y h = Inl OutOfFuel"
| "ik_align_branch_only_translate (Suc fuel) None offset_x offset_y h = Inl NullDeref"
| "ik_align_branch_only_translate (Suc fuel) (Some r) offset_x offset_y h =
     (let h1 = set_position r
                 \<lparr>vx = vx (position (h r)) + offset_x, vy = vy (position (h r)) + offset_y\<rparr> h
      in for_each (\<lambda>child. ik_align_branch_only_translate fuel child offset_x offset_y)
           (children (h1 r)) h1)"

definition ik_move_within_dist :: "addr \<Rightarrow> real \<Rightarrow> real \<Rightarrow> real \<Rightarrow> heap \<Rightarrow> fault + heap" where
  "ik_move_within_dist joint distance target_x target_y h =
     (let dx = vx (position (h joint)) - target_x;
          dy = vy (position (h joint)) - target_y;
          norm_denom = length_xy dx dy
      in if norm_denom = 0
         then Inr (set_position joint \<lparr>vx = target_x, vy = target_y\<rparr> h)
         else
           (case fdiv (distance * dx) norm_denom of
              Inl e \<Rightarrow> Inl e
            | Inr qx \<Rightarrow>
                (case fdiv (distance * dy) norm_denom of
                   Inl e \<Rightarrow> Inl e
                 | Inr qy \<Rightarrow>
                     Inr (set_position joint
                            \<lparr>vx = target_x + qx, vy = target_y + qy\<rparr> h))))"

text \<open>
  The branch step the two passes share (the source writes it out twice): with more than
  one child, every child but \<open>path_child\<close> is aligned, by a rotation when the joint has a
  parent and by a translation when it is the root of the tree. \<open>org_x\<close>, \<open>org_y\<close> is the
  joint's position before it was moved.
\<close>

definition align_children ::
  "nat \<Rightarrow> addr \<Rightarrow> joint_ptr \<Rightarrow> real \<Rightarrow> real \<Rightarrow> heap \<Rightarrow> fault + heap" where
  "align_children fuel j path_child org_x org_y h =
     (case parent (h j) of
        Some pr \<Rightarrow>
          (let from_v = \<lparr>vx = org_x - vx (position (h pr)), vy = org_y - vy (position (h pr))\<rparr>;
               to_v = \<lparr>vx = vx (position (h j)) - vx (position (h pr)),
                       vy = vy (position (h j)) - vy (position (h pr))\<rparr>
           in for_each
                (\<lambda>child h'. if child \<noteq> path_child
                   then ik_align_branch fuel child from_v to_v h' else Inr h')
                (children (h j)) h)
      | None \<Rightarrow>
          for_each
            (\<lambda>child h'. if child \<noteq> path_child
               then ik_align_branch_only_translate fuel child
                      (vx (position (h' j)) - org_x) (vy (position (h' j)) - org_y) h'
               else Inr h')
            (children (h j)) h)"

text \<open>
  \<^verbatim>\<open>ik_reach_back\<close>. The out-parameters \<^verbatim>\<open>root\<close>, \<^verbatim>\<open>root_org_x\<close>, \<^verbatim>\<open>root_org_y\<close> are
  written once, by the call that stands on the root, so the model returns them.
\<close>

fun ik_reach_back ::
  "nat \<Rightarrow> addr \<Rightarrow> real \<Rightarrow> real \<Rightarrow> real \<Rightarrow> ik_state \<Rightarrow> fault + (ik_state \<times> addr \<times> real \<times> real)" where
  "ik_reach_back 0 effected target_x target_y distance s = Inl OutOfFuel"
| "ik_reach_back (Suc fuel) effected target_x target_y distance s =
     (let org_x = vx (position (heap s effected));
          org_y = vy (position (heap s effected))
      in case ik_move_within_dist effected distance target_x target_y (heap s) of
           Inl e \<Rightarrow> Inl e
         | Inr h1 \<Rightarrow>
             (case (if n_children (h1 effected) > 1
                    then align_children fuel effected (ik_stack_top s) org_x org_y h1
                    else Inr h1) of
                Inl e \<Rightarrow> Inl e
              | Inr h2 \<Rightarrow>
                  (case parent (h2 effected) of
                     None \<Rightarrow> Inr (s\<lparr>heap := h2\<rparr>, effected, org_x, org_y)
                   | Some pr \<Rightarrow>
                       (case (if n_children (h2 pr) > 1
                              then ik_stack_push effected (s\<lparr>heap := h2\<rparr>)
                              else Inr (s\<lparr>heap := h2\<rparr>)) of
                          Inl e \<Rightarrow> Inl e
                        | Inr s' \<Rightarrow>
                            ik_reach_back fuel pr
                              (vx (position (h2 effected))) (vy (position (h2 effected)))
                              (length_j (h2 effected)) s'))))"

fun ik_reach_forward :: "nat \<Rightarrow> addr \<Rightarrow> real \<Rightarrow> real \<Rightarrow> real \<Rightarrow> ik_state \<Rightarrow> fault + ik_state" where
  "ik_reach_forward 0 rootj distance target_x target_y s = Inl OutOfFuel"
| "ik_reach_forward (Suc fuel) rootj distance target_x target_y s =
     (let org_x = vx (position (heap s rootj));
          org_y = vy (position (heap s rootj))
      in case ik_move_within_dist rootj distance target_x target_y (heap s) of
           Inl e \<Rightarrow> Inl e
         | Inr h1 \<Rightarrow>
             if n_children (h1 rootj) = 0 then Inr (s\<lparr>heap := h1\<rparr>)
             else
               (case (if n_children (h1 rootj) > 1
                      then (let (path_child, s1) = ik_stack_pop (s\<lparr>heap := h1\<rparr>)
                            in case align_children fuel rootj path_child org_x org_y h1 of
                                 Inl e \<Rightarrow> Inl e
                               | Inr h2 \<Rightarrow> Inr (path_child, s1\<lparr>heap := h2\<rparr>))
                      else Inr (children (h1 rootj) ! 0, s\<lparr>heap := h1\<rparr>)) of
                  Inl e \<Rightarrow> Inl e
                | Inr (path_child, s2) \<Rightarrow>
                    (case path_child of
                       None \<Rightarrow> Inl NullDeref
                     | Some c \<Rightarrow>
                         ik_reach_forward fuel c (length_j (heap s2 c))
                           (vx (position (heap s2 rootj))) (vy (position (heap s2 rootj))) s2)))"

text \<open>\<^verbatim>\<open>void ik_translate_relative(ik_joint *root, float dx, float dy)\<close>\<close>

fun ik_translate_relative :: "nat \<Rightarrow> joint_ptr \<Rightarrow> real \<Rightarrow> real \<Rightarrow> heap \<Rightarrow> fault + heap" where
  "ik_translate_relative 0 rootj dx dy h = Inl OutOfFuel"
| "ik_translate_relative (Suc fuel) None dx dy h = Inl NullDeref"
| "ik_translate_relative (Suc fuel) (Some r) dx dy h =
     (let h1 = set_position r
                 \<lparr>vx = vx (position (h r)) + dx, vy = vy (position (h r)) + dy\<rparr> h
      in for_each (\<lambda>child. ik_translate_relative fuel child dx dy) (children (h1 r)) h1)"

section \<open>Interface functions\<close>

definition ik_init :: "ik_state \<Rightarrow> ik_state" where
  "ik_init s = s\<lparr>stack := []\<rparr>"

text \<open>
  \<^verbatim>\<open>ik_new_joint\<close>: \<open>joint\<close> is the block \<^verbatim>\<open>IK_MALLOC\<close> returned (the allocator is not
  part of the source; the source does not test its result). For a negative \<^verbatim>\<open>n_children\<close>
  the block asked for is shorter than the struct, and the writes of the fields run past its
  end.
\<close>

definition ik_new_joint :: "joint_ptr \<Rightarrow> real \<Rightarrow> int \<Rightarrow> heap \<Rightarrow> fault + (heap \<times> addr)" where
  "ik_new_joint joint len n h =
     (case joint of
        None \<Rightarrow> Inl NullDeref
      | Some a \<Rightarrow>
          if n < 0 then Inl OutOfBounds
          else Inr (h(a := \<lparr>position = \<lparr>vx = 0, vy = 0\<rparr>, length_j = len, parent = None,
                            children = replicate (nat n) None\<rparr>), a))"

text \<open>
  \<^verbatim>\<open>ik_attach_joint\<close>: the loop over the slots from slot \<open>i\<close> on. The slot is written
  before \<^verbatim>\<open>child->parent\<close>, which faults on a null \<^verbatim>\<open>child\<close>.
\<close>

function attach_from :: "nat \<Rightarrow> joint_ptr \<Rightarrow> addr \<Rightarrow> heap \<Rightarrow> fault + (heap \<times> int)" where
  "attach_from i child pr h =
     (if i < n_children (h pr)
      then (if children (h pr) ! i = None
            then (let h1 = h(pr := (h pr)\<lparr>children := (children (h pr))[i := child]\<rparr>)
                  in case child of
                       None \<Rightarrow> Inl NullDeref
                     | Some c \<Rightarrow> Inr (h1(c := (h1 c)\<lparr>parent := Some pr\<rparr>), IK_OK))
            else attach_from (Suc i) child pr h)
      else Inr (h, IK_ERROR))"
  by pat_completeness auto
termination
  by (relation "measure (\<lambda>(i, child, pr, h). n_children (h pr) - i)") auto

definition ik_attach_joint :: "joint_ptr \<Rightarrow> joint_ptr \<Rightarrow> heap \<Rightarrow> fault + (heap \<times> int)" where
  "ik_attach_joint child par h =
     (case par of None \<Rightarrow> Inl NullDeref | Some pr \<Rightarrow> attach_from 0 child pr h)"

definition ik_translate :: "nat \<Rightarrow> joint_ptr \<Rightarrow> real \<Rightarrow> real \<Rightarrow> heap \<Rightarrow> fault + heap" where
  "ik_translate fuel rootj x y h =
     (case rootj of
        None \<Rightarrow> Inl NullDeref
      | Some r \<Rightarrow>
          (let dx = x - vx (position (h r));
               dy = y - vy (position (h r))
           in ik_translate_relative fuel (Some r) dx dy h))"

definition ik_solve :: "nat \<Rightarrow> joint_ptr \<Rightarrow> real \<Rightarrow> real \<Rightarrow> ik_state \<Rightarrow> fault + (ik_state \<times> int)" where
  "ik_solve fuel effected target_x target_y s =
     (case effected of
        None \<Rightarrow> Inl NullDeref
      | Some e \<Rightarrow>
          (case ik_reach_back fuel e target_x target_y 0 s of
             Inl err \<Rightarrow> Inl err
           | Inr (s1, rootj, root_org_x, root_org_y) \<Rightarrow>
               (case ik_reach_forward fuel rootj 0 root_org_x root_org_y s1 of
                  Inl err \<Rightarrow> Inl err
                | Inr s2 \<Rightarrow> Inr (s2, 1))))"

section \<open>Trees in the heap\<close>

text \<open>
  The notions the statements below are written in; none of them is part of the source.
  A \<open>jtree\<close> lists the addresses of a tree of joints, each with its child subtrees
  in slot order. \<open>shaped h t\<close> says that the heap holds that tree: every slot is filled with
  the root of the matching subtree, whose \<^verbatim>\<open>parent\<close> points back. \<open>is_tree\<close> adds that no
  joint stands twice in it.
\<close>

datatype jtree = JNode addr "jtree list"

fun root_of :: "jtree \<Rightarrow> addr" where
  "root_of (JNode a ts) = a"

fun nodes :: "jtree \<Rightarrow> addr list" where
  "nodes (JNode a ts) = a # concat (map nodes ts)"

fun height :: "jtree \<Rightarrow> nat" where
  "height (JNode a ts) = Suc (fold max (map height ts) 0)"

fun shaped :: "heap \<Rightarrow> jtree \<Rightarrow> bool" where
  "shaped h (JNode a ts) =
     (children (h a) = map (\<lambda>t. Some (root_of t)) ts
      \<and> (\<forall>t \<in> set ts. parent (h (root_of t)) = Some a \<and> shaped h t))"

definition is_tree :: "heap \<Rightarrow> jtree \<Rightarrow> bool" where
  "is_tree h t = (shaped h t \<and> distinct (nodes t))"

text \<open>
  The heap \<^verbatim>\<open>ik_move_within_dist\<close> returns; it returns on every input (\<open>move_total\<close>
  below), since its division stands behind the test of the divisor.
\<close>

definition moved :: "addr \<Rightarrow> real \<Rightarrow> real \<Rightarrow> real \<Rightarrow> heap \<Rightarrow> heap" where
  "moved joint distance target_x target_y h =
     (let dx = vx (position (h joint)) - target_x;
          dy = vy (position (h joint)) - target_y;
          norm_denom = length_xy dx dy
      in if norm_denom = 0
         then set_position joint \<lparr>vx = target_x, vy = target_y\<rparr> h
         else set_position joint
                \<lparr>vx = target_x + distance * dx / norm_denom,
                 vy = target_y + distance * dy / norm_denom\<rparr> h)"

text \<open>The heap in which every joint of the set \<open>A\<close> has been moved by \<open>g\<close>, once.\<close>

definition move_all :: "(ik_vec2 \<Rightarrow> ik_vec2) \<Rightarrow> addr set \<Rightarrow> heap \<Rightarrow> heap" where
  "move_all g A h = (\<lambda>a. if a \<in> A then (h a)\<lparr>position := g (position (h a))\<rparr> else h a)"

text \<open>
  The recursion \<^verbatim>\<open>ik_align_branch_precalc\<close>, \<^verbatim>\<open>ik_align_branch_only_translate\<close> and
  \<^verbatim>\<open>ik_translate_relative\<close> have in common: move the joint, then its children in slot order.
\<close>

fun map_branch :: "nat \<Rightarrow> (ik_vec2 \<Rightarrow> ik_vec2) \<Rightarrow> joint_ptr \<Rightarrow> heap \<Rightarrow> fault + heap" where
  "map_branch 0 g rootj h = Inl OutOfFuel"
| "map_branch (Suc fuel) g None h = Inl NullDeref"
| "map_branch (Suc fuel) g (Some r) h =
     (let h1 = set_position r (g (position (h r))) h
      in for_each (\<lambda>child. map_branch fuel g child) (children (h1 r)) h1)"

definition shift :: "real \<Rightarrow> real \<Rightarrow> ik_vec2 \<Rightarrow> ik_vec2" where
  "shift dx dy p = \<lparr>vx = vx p + dx, vy = vy p + dy\<rparr>"

text \<open>
  The path of a call. A \<open>frame\<close> is a joint of the path that has a child on the path:
  the joint, the subtrees in the slots before the slot of the path child, and those in the
  slots after it. \<open>link_ok h c f\<close> says that \<open>c\<close> is that path child in the heap, and
  \<open>links h c fs\<close> that the frames \<open>fs\<close> lead from \<open>c\<close> upwards, each the parent of the one
  before. \<open>top_of c fs\<close> is the joint they end at.
\<close>

type_synonym frame = "addr \<times> jtree list \<times> jtree list"

definition roots :: "jtree list \<Rightarrow> joint_ptr list" where
  "roots ts = map (\<lambda>t. Some (root_of t)) ts"

fun link_ok :: "heap \<Rightarrow> addr \<Rightarrow> frame \<Rightarrow> bool" where
  "link_ok h c (p, l, r) =
     (parent (h c) = Some p
      \<and> children (h p) = roots l @ Some c # roots r
      \<and> (\<forall>t \<in> set (l @ r). parent (h (root_of t)) = Some p \<and> shaped h t))"

fun links :: "heap \<Rightarrow> addr \<Rightarrow> frame list \<Rightarrow> bool" where
  "links h c [] = True"
| "links h c (f # fs) = (link_ok h c f \<and> links h (fst f) fs)"

fun top_of :: "addr \<Rightarrow> frame list \<Rightarrow> addr" where
  "top_of c [] = c"
| "top_of c (f # fs) = top_of (fst f) fs"


fun frame_nodes :: "frame \<Rightarrow> addr list" where
  "frame_nodes (p, l, r) = p # concat (map nodes (l @ r))"

text \<open>
  The stack (top first) that \<^verbatim>\<open>ik_reach_back\<close> has pushed when it has climbed from \<open>c\<close>
  through the frames: the path child of every frame that has another child.
\<close>

fun pushed :: "addr \<Rightarrow> frame list \<Rightarrow> addr list" where
  "pushed c [] = []"
| "pushed c ((p, l, r) # fs) = pushed p fs @ (if l @ r \<noteq> [] then [c] else [])"

text \<open>Two heaps that differ in the positions of the joints at most.\<close>

definition same_shape :: "heap \<Rightarrow> heap \<Rightarrow> bool" where
  "same_shape h h' =
     (\<forall>a. parent (h' a) = parent (h a) \<and> children (h' a) = children (h a)
          \<and> length_j (h' a) = length_j (h a))"

text \<open>The distance of two joints, with the source's own \<^verbatim>\<open>length\<close>.\<close>

definition dist_j :: "heap \<Rightarrow> addr \<Rightarrow> addr \<Rightarrow> real" where
  "dist_j h a b =
     length_xy (vx (position (h a)) - vx (position (h b)))
               (vy (position (h a)) - vy (position (h b)))"

definition rigid_on :: "addr set \<Rightarrow> heap \<Rightarrow> heap \<Rightarrow> bool" where
  "rigid_on A h h' = (\<forall>u \<in> A. \<forall>v \<in> A. dist_j h' u v = dist_j h u v)"

text \<open>The matrix and the offset \<^verbatim>\<open>ik_align_branch\<close> computes from \<open>from\<close> and \<open>to\<close>.\<close>

definition align_matrix :: "ik_vec2 \<Rightarrow> ik_vec2 \<Rightarrow> ik_matrix" where
  "align_matrix from_v to_v =
     (let C_denom = length_xy (vx from_v) (vy from_v) * length_xy (vx to_v) (vy to_v);
          c = (vx from_v * vx to_v + vy from_v * vy to_v) / C_denom;
          S2 = 1 - c * c;
          s = sqrt (if S2 > 0 then S2 else 0);
          p = (if vx from_v * vy to_v - vy from_v * vx to_v > 0 then 1 else - 1)
      in \<lparr>mat_C = c, mat_S = s, mat_P = p\<rparr>)"

definition align_offset :: "ik_vec2 \<Rightarrow> ik_vec2 \<Rightarrow> ik_vec2" where
  "align_offset from_v to_v = \<lparr>vx = vx to_v - vx from_v, vy = vy to_v - vy from_v\<rparr>"


definition frames_rigid :: "frame list \<Rightarrow> heap \<Rightarrow> heap \<Rightarrow> bool" where
  "frames_rigid fs h h' =
     (same_shape h h'
      \<and> (\<forall>a. a \<notin> set (concat (map frame_nodes fs)) \<longrightarrow> h' a = h a)
      \<and> (\<forall>g \<in> set fs. rigid_on (set (frame_nodes g)) h h'))"

definition placed :: "heap \<Rightarrow> heap \<Rightarrow> addr \<Rightarrow> addr \<Rightarrow> bool" where
  "placed h0 h c p =
     (position (h c)
        = position (moved c (length_j (h0 c))
                      (vx (position (h p))) (vy (position (h p))) h0 c))"

fun spine_placed :: "heap \<Rightarrow> heap \<Rightarrow> frame list \<Rightarrow> bool" where
  "spine_placed h0 h [] = True"
| "spine_placed h0 h [f] = True"
| "spine_placed h0 h (f # g # fs) = (placed h0 h (fst f) (fst g) \<and> spine_placed h0 h (g # fs))"

text \<open>
  The trees on which a call of \<^verbatim>\<open>ik_solve\<close> can return. The path of the call runs from the
  root down to a leaf \<open>L\<close>; \<open>gs @ fs\<close> are its frames from the parent of \<open>L\<close> up to the root.
  The effected joint is \<open>top_of L gs\<close>: the frames \<open>gs\<close>, from \<open>L\<close> up to the effected joint,
  have no child beside the path (the forward pass walks down through them), the frames \<open>fs\<close>
  above it may carry sibling subtrees. No joint stands twice in the tree.
\<close>

definition solved_path :: "heap \<Rightarrow> addr \<Rightarrow> frame list \<Rightarrow> frame list \<Rightarrow> bool" where
  "solved_path h L gs fs =
     (links h L (gs @ fs) \<and> children (h L) = [] \<and> (\<forall>f \<in> set gs. snd f = ([], []))
      \<and> parent (h (top_of L (gs @ fs))) = None
      \<and> distinct (L # concat (map frame_nodes (gs @ fs))))"

text \<open>
  The subtrees of a tree, and the trees that are chains. Every tree in the heap of which
  the effected joint heads a chain has a path as above (\<open>tree_path\<close> below); an effected
  joint with more than one child has none, and no call on it returns.
\<close>

fun subtrees :: "jtree \<Rightarrow> jtree list" where
  "subtrees (JNode a ts) = JNode a ts # concat (map subtrees ts)"

fun chain_tree :: "jtree \<Rightarrow> bool" where
  "chain_tree (JNode a []) = True"
| "chain_tree (JNode a [t]) = chain_tree t"
| "chain_tree (JNode a (t # u # ts)) = False"

text \<open>
  The fuel that is enough for a call on such a tree: more than the number of joints of the
  path above the leaf, and more than that number plus the height of any sibling subtree.
\<close>

definition enough_fuel :: "frame list \<Rightarrow> frame list \<Rightarrow> nat \<Rightarrow> bool" where
  "enough_fuel gs fs fuel =
     (length (gs @ fs) < fuel
      \<and> (\<forall>g \<in> set fs. \<forall>t \<in> set (fst (snd g) @ snd (snd g)).
            height t + length (gs @ fs) < fuel))"

section \<open>Example trees\<close>

text \<open>
  \<open>fresh\<close> is the memory before any joint is made. \<open>two_joints\<close> is what the calls
  \<^verbatim>\<open>root = ik_new_joint(5, 1); leaf = ik_new_joint(5, 0);\<close> leave when the allocator returns
  the blocks 0 and 1, and \<open>chain2 0 0 0 0\<close> what \<^verbatim>\<open>ik_attach_joint(leaf, root)\<close> makes of it:
  the chain of two joints, in \<open>chain2 rx ry lx ly\<close> with the root at \<open>(rx, ry)\<close> and the leaf
  at \<open>(lx, ly)\<close>. \<open>idle h\<close> is the state after \<^verbatim>\<open>ik_init\<close>, between two calls.
\<close>

definition fresh :: heap where
  "fresh = (\<lambda>a. \<lparr>position = \<lparr>vx = 0, vy = 0\<rparr>, length_j = 0, parent = None, children = []\<rparr>)"

definition two_joints :: heap where
  "two_joints =
     fresh(0 := \<lparr>position = \<lparr>vx = 0, vy = 0\<rparr>, length_j = 5, parent = None, children = [None]\<rparr>,
           1 := \<lparr>position = \<lparr>vx = 0, vy = 0\<rparr>, length_j = 5, parent = None, children = []\<rparr>)"

definition chain2 :: "real \<Rightarrow> real \<Rightarrow> real \<Rightarrow> real \<Rightarrow> heap" where
  "chain2 rx ry lx ly =
     fresh(0 := \<lparr>position = \<lparr>vx = rx, vy = ry\<rparr>, length_j = 5, parent = None, children = [Some 1]\<rparr>,
           1 := \<lparr>position = \<lparr>vx = lx, vy = ly\<rparr>, length_j = 5, parent = Some 0, children = []\<rparr>)"

text \<open>
  \<open>fork\<close> is a tree of five joints, all of length 1: the root 0 at the origin, its one child 1,
  and under 1 the leaf 2 and the chain of 3 and 4.
\<close>

definition fork :: heap where
  "fork =
     fresh(0 := \<lparr>position = \<lparr>vx = 0, vy = 0\<rparr>, length_j = 1, parent = None, children = [Some 1]\<rparr>,
           1 := \<lparr>position = \<lparr>vx = 1, vy = 0\<rparr>, length_j = 1, parent = Some 0,
                 children = [Some 2, Some 3]\<rparr>,
           2 := \<lparr>position = \<lparr>vx = 2, vy = 0\<rparr>, length_j = 1, parent = Some 1, children = []\<rparr>,
           3 := \<lparr>position = \<lparr>vx = 1, vy = 1\<rparr>, length_j = 1, parent = Some 1, children = [Some 4]\<rparr>,
           4 := \<lparr>position = \<lparr>vx = 1, vy = 2\<rparr>, length_j = 1, parent = Some 3, children = []\<rparr>)"


definition idle :: "heap \<Rightarrow> ik_state" where
  "idle h = ik_init \<lparr>heap = h, stack = [], n_push = 0, n_pop = 0\<rparr>"

section \<open>Lengths\<close>

declare attach_from.simps [simp del]

lemma length_xy_zero_iff: "length_xy x y = 0 \<longleftrightarrow> x = 0 \<and> y = 0"
  unfolding length_xy_def
  by (metis add_nonneg_eq_0_iff mult_eq_0_iff real_sqrt_eq_zero_cancel_iff zero_le_square)

lemma length_xy_nonneg: "0 \<le> length_xy x y"
  unfolding length_xy_def by simp

lemma length_xy_scale: "length_xy (k * x) (k * y) = \<bar>k\<bar> * length_xy x y"
proof -
  have "(k * x) * (k * x) + (k * y) * (k * y) = (k * k) * (x * x + y * y)"
    by (simp add: algebra_simps)
  then show ?thesis
    unfolding length_xy_def by (simp add: real_sqrt_mult)
qed

lemma length_xy_scaled_unit:
  assumes "length_xy x y \<noteq> 0"
  shows "length_xy (d * x / length_xy x y) (d * y / length_xy x y) = \<bar>d\<bar>"
proof -
  have "length_xy ((d / length_xy x y) * x) ((d / length_xy x y) * y)
          = \<bar>d / length_xy x y\<bar> * length_xy x y"
    by (rule length_xy_scale)
  then show ?thesis using assms length_xy_nonneg[of x y] by simp
qed

lemma length_xy_axis [simp]: "length_xy x 0 = \<bar>x\<bar>"
  by (simp add: length_xy_def)

section \<open>Moving a joint within a distance of a target\<close>

lemma move_position:
  "position (moved j d tx ty h j) =
     (if vx (position (h j)) = tx \<and> vy (position (h j)) = ty then \<lparr>vx = tx, vy = ty\<rparr>
      else \<lparr>vx = tx + d * (vx (position (h j)) - tx)
                     / length_xy (vx (position (h j)) - tx) (vy (position (h j)) - ty),
            vy = ty + d * (vy (position (h j)) - ty)
                     / length_xy (vx (position (h j)) - tx) (vy (position (h j)) - ty)\<rparr>)"
  by (simp add: moved_def Let_def set_position_def length_xy_zero_iff)

lemma move_frame:
  "moved j d tx ty h = set_position j (position (moved j d tx ty h j)) h"
  by (simp add: moved_def Let_def set_position_def)

lemma move_total: "ik_move_within_dist j d tx ty h = Inr (moved j d tx ty h)"
  by (simp add: ik_move_within_dist_def moved_def fdiv_def Let_def)

text \<open>
  C6 (amended). In exact arithmetic, \<^verbatim>\<open>ik_move_within_dist\<close> returns on every joint,
  distance and target: no division by zero occurs, because its two divisions stand behind
  the test \<^verbatim>\<open>norm_denom == 0\<close>. It writes the position of the joint and nothing else.
  When the joint stands on the target it is put on the target. Otherwise the divisor
  \<^verbatim>\<open>norm_denom\<close> is not zero, and the joint is put at \<open>target + distance * u\<close>, where \<open>u\<close>
  is the unit vector from the target to the joint's old position: on the line through the
  target and the old position, at the Euclidean distance \<open>\<bar>distance\<bar>\<close> from the target,
  which is \<open>distance\<close> exactly when \<open>distance\<close> is not negative (a negative distance
  puts the joint on the far side of the target).
\<close>

theorem move_within_dist_contract:
  fixes h :: heap and j :: addr and d tx ty :: real
  defines "px \<equiv> vx (position (h j))" and "py \<equiv> vy (position (h j))"
  defines "n \<equiv> length_xy (px - tx) (py - ty)"
  shows "\<exists>h' qx qy. ik_move_within_dist j d tx ty h = Inr h'
           \<and> h' = h(j := (h j)\<lparr>position := \<lparr>vx = qx, vy = qy\<rparr>\<rparr>)
           \<and> (if px = tx \<and> py = ty
                then n = 0 \<and> qx = tx \<and> qy = ty
                else n \<noteq> 0
                   \<and> fdiv (d * (px - tx)) n = Inr (d * (px - tx) / n)
                   \<and> fdiv (d * (py - ty)) n = Inr (d * (py - ty) / n)
                   \<and> qx = tx + d * ((px - tx) / n)
                   \<and> qy = ty + d * ((py - ty) / n)
                   \<and> length_xy ((px - tx) / n) ((py - ty) / n) = 1
                   \<and> length_xy (qx - tx) (qy - ty) = \<bar>d\<bar>
                   \<and> (length_xy (qx - tx) (qy - ty) = d) = (0 \<le> d))"
proof -
  define h' where "h' = moved j d tx ty h"
  define qx where "qx = vx (position (h' j))"
  define qy where "qy = vy (position (h' j))"
  have run: "ik_move_within_dist j d tx ty h = Inr h'"
    unfolding h'_def by (rule move_total)
  have frame: "h' = h(j := (h j)\<lparr>position := \<lparr>vx = qx, vy = qy\<rparr>\<rparr>)"
    unfolding h'_def qx_def qy_def
    by (simp add: moved_def Let_def set_position_def)
  have body: "(if px = tx \<and> py = ty
                then n = 0 \<and> qx = tx \<and> qy = ty
                else n \<noteq> 0
                   \<and> fdiv (d * (px - tx)) n = Inr (d * (px - tx) / n)
                   \<and> fdiv (d * (py - ty)) n = Inr (d * (py - ty) / n)
                   \<and> qx = tx + d * ((px - tx) / n)
                   \<and> qy = ty + d * ((py - ty) / n)
                   \<and> length_xy ((px - tx) / n) ((py - ty) / n) = 1
                   \<and> length_xy (qx - tx) (qy - ty) = \<bar>d\<bar>
                   \<and> (length_xy (qx - tx) (qy - ty) = d) = (0 \<le> d))"
  proof (cases "px = tx \<and> py = ty")
    case True
    then have "n = 0" unfolding n_def by (simp add: length_xy_zero_iff)
    then show ?thesis using True
      unfolding qx_def qy_def h'_def px_def py_def by (simp add: move_position)
  next
    case False
    then have nz: "n \<noteq> 0"
      unfolding n_def by (simp add: length_xy_zero_iff)
    have q: "qx = tx + d * (px - tx) / n" "qy = ty + d * (py - ty) / n"
      using False unfolding qx_def qy_def h'_def px_def py_def n_def
      by (simp_all add: move_position)
    have u: "length_xy ((px - tx) / n) ((py - ty) / n) = 1"
      using length_xy_scaled_unit[of "px - tx" "py - ty" 1] nz unfolding n_def by simp
    have dd: "length_xy (qx - tx) (qy - ty) = \<bar>d\<bar>"
      using length_xy_scaled_unit[of "px - tx" "py - ty" d] nz unfolding n_def
      by (simp add: q n_def)
    have sgn: "(length_xy (qx - tx) (qy - ty) = d) = (0 \<le> d)"
      unfolding dd by auto
    show ?thesis using False nz q u dd sgn by (simp add: fdiv_def)
  qed
  show ?thesis
    by (rule exI[of _ h'], rule exI[of _ qx], rule exI[of _ qy]) (intro conjI run frame body)
qed

text \<open>
  C6, counterexample. From \<open>(3, 4)\<close>, with the target \<open>(0, 0)\<close> and the distance \<open>- 5\<close>, the
  joint is put at \<open>(- 3, - 4)\<close>: its Euclidean distance from the target is \<open>5\<close>, not the
  given distance.
\<close>

theorem move_within_dist_counterexample:
  "position (chain2 0 0 3 4 1) = \<lparr>vx = 3, vy = 4\<rparr>
   \<and> ik_move_within_dist 1 (- 5) 0 0 (chain2 0 0 3 4) = Inr (chain2 0 0 (- 3) (- 4))
   \<and> position (chain2 0 0 (- 3) (- 4) 1) = \<lparr>vx = - 3, vy = - 4\<rparr>
   \<and> length_xy (- 3 - 0) (- 4 - 0) = 5
   \<and> length_xy (- 3 - 0) (- 4 - 0) \<noteq> - 5"
proof -
  have l: "length_xy 3 4 = 5" "length_xy (- 3) (- 4) = 5"
    unfolding length_xy_def by (simp_all add: real_sqrt_unique)
  show ?thesis
    by (simp add: ik_move_within_dist_def fdiv_def chain2_def fresh_def Let_def
        set_position_def l fun_eq_iff)
qed

section \<open>Moving a whole branch\<close>

lemma translate_is_map_branch:
  "ik_translate_relative fuel r dx dy h = map_branch fuel (shift dx dy) r h"
proof (induction fuel arbitrary: r h)
  case 0
  show ?case by simp
next
  case (Suc fuel)
  have eq: "(\<lambda>child. ik_translate_relative fuel child dx dy) = (\<lambda>child. map_branch fuel (shift dx dy) child)"
    by (intro ext) (rule Suc.IH)
  show ?case
    by (cases r) (simp_all add: eq shift_def[symmetric])
qed

lemma only_translate_is_map_branch:
  "ik_align_branch_only_translate fuel r dx dy h = map_branch fuel (shift dx dy) r h"
proof (induction fuel arbitrary: r h)
  case 0
  show ?case by simp
next
  case (Suc fuel)
  have eq: "(\<lambda>child. ik_align_branch_only_translate fuel child dx dy) = (\<lambda>child. map_branch fuel (shift dx dy) child)"
    by (intro ext) (rule Suc.IH)
  show ?case
    by (cases r) (simp_all add: eq shift_def[symmetric])
qed

lemma precalc_is_map_branch:
  "ik_align_branch_precalc fuel r pivot mat offset h = map_branch fuel (align_point pivot mat offset) r h"
proof (induction fuel arbitrary: r h)
  case 0
  show ?case by simp
next
  case (Suc fuel)
  have eq: "(\<lambda>child. ik_align_branch_precalc fuel child pivot mat offset) = (\<lambda>child. map_branch fuel (align_point pivot mat offset) child)"
    by (intro ext) (rule Suc.IH)
  show ?case
    by (cases r) (simp_all add: eq)
qed

lemma height_child: "t \<in> set ts \<Longrightarrow> height t \<le> fold max (map height ts) 0"
proof -
  have gen: "\<And>m. (t \<in> set ts \<longrightarrow> height t \<le> fold max (map height ts) m) \<and> m \<le> fold max (map height ts) m"
  proof (induction ts)
    case Nil
    show ?case by simp
  next
    case (Cons u us)
    have a: "max (height u) m \<le> fold max (map height us) (max (height u) m)"
      using Cons.IH[of "max (height u) m"] by simp
    show ?case using Cons.IH[of "max (height u) m"] a by auto
  qed
  assume "t \<in> set ts" then show ?thesis using gen[of 0] by simp
qed

lemma shaped_move_all [simp]: "shaped (move_all g A h) t = shaped h t"
  by (induction t) (auto simp: move_all_def)

lemma shaped_set_position [simp]: "shaped (set_position a v h) t = shaped h t"
  by (induction t) (auto simp: set_position_def)

lemma move_all_union:
  "A \<inter> B = {} \<Longrightarrow> move_all g B (move_all g A h) = move_all g (A \<union> B) h"
  by (auto simp: move_all_def fun_eq_iff)

lemma move_all_insert:
  "a \<notin> A \<Longrightarrow> move_all g A (set_position a (g (position (h a))) h) = move_all g (insert a A) h"
  by (auto simp: move_all_def set_position_def fun_eq_iff)

lemma move_all_empty [simp]: "move_all g {} h = h"
  by (simp add: move_all_def)

lemma for_each_subtrees:
  assumes ih: "\<And>t h. t \<in> set ts \<Longrightarrow> shaped h t \<Longrightarrow> distinct (nodes t) \<Longrightarrow>
                 map_branch fuel g (Some (root_of t)) h = Inr (move_all g (set (nodes t)) h)"
    and "\<forall>t \<in> set ts. shaped h t"
    and "distinct (concat (map nodes ts))"
  shows "for_each (\<lambda>child. map_branch fuel g child) (map (\<lambda>t. Some (root_of t)) ts) h
           = Inr (move_all g (set (concat (map nodes ts))) h)"
  using assms
proof (induction ts arbitrary: h)
  case Nil
  show ?case by simp
next
  case (Cons t ts)
  have first: "map_branch fuel g (Some (root_of t)) h = Inr (move_all g (set (nodes t)) h)"
    using Cons.prems by simp
  have rest: "for_each (\<lambda>child. map_branch fuel g child) (map (\<lambda>t. Some (root_of t)) ts)
                (move_all g (set (nodes t)) h)
              = Inr (move_all g (set (concat (map nodes ts))) (move_all g (set (nodes t)) h))"
    using Cons.prems by (intro Cons.IH) auto
  have disj: "set (nodes t) \<inter> set (concat (map nodes ts)) = {}"
    using Cons.prems(3) by auto
  show ?case
    using first rest move_all_union[OF disj, of g h] by simp
qed

lemma map_branch_tree:
  "shaped h t \<Longrightarrow> distinct (nodes t) \<Longrightarrow> height t \<le> fuel \<Longrightarrow>
     map_branch fuel g (Some (root_of t)) h = Inr (move_all g (set (nodes t)) h)"
proof (induction t arbitrary: fuel h)
  case (JNode a ts)
  from JNode.prems(3) obtain k where k: "fuel = Suc k" and hk: "fold max (map height ts) 0 \<le> k"
    by (cases fuel) auto
  let ?h1 = "set_position a (g (position (h a))) h"
  have ch: "children (?h1 a) = map (\<lambda>t. Some (root_of t)) ts"
    using JNode.prems(1) by (simp add: set_position_def)
  have sub: "for_each (\<lambda>child. map_branch k g child) (map (\<lambda>t. Some (root_of t)) ts) ?h1
           = Inr (move_all g (set (concat (map nodes ts))) ?h1)"
  proof (rule for_each_subtrees)
    fix t h'
    assume "t \<in> set ts" "shaped h' t" "distinct (nodes t)"
    then show "map_branch k g (Some (root_of t)) h' = Inr (move_all g (set (nodes t)) h')"
      using JNode.IH[of t h' k] height_child[of t ts] hk by simp
  next
    show "\<forall>t\<in>set ts. shaped ?h1 t" using JNode.prems(1) by simp
  next
    show "distinct (concat (map nodes ts))" using JNode.prems(2) by simp
  qed
  have notin: "a \<notin> set (concat (map nodes ts))" using JNode.prems(2) by simp
  show ?case
    using sub ch move_all_insert[OF notin, of g h] by (simp add: k)
qed

section \<open>Building a tree\<close>

lemma attach_from_full:
  "\<forall>k. i \<le> k \<and> k < n_children (h pr) \<longrightarrow> children (h pr) ! k \<noteq> None \<Longrightarrow>
     attach_from i child pr h = Inr (h, IK_ERROR)"
proof (induction i child pr h rule: attach_from.induct)
  case (1 i child pr h)
  show ?case
  proof (cases "i < n_children (h pr)")
    case True
    then have "children (h pr) ! i \<noteq> None" using "1.prems" by simp
    moreover have "attach_from (Suc i) child pr h = Inr (h, IK_ERROR)"
      using True calculation "1.prems" by (intro "1.IH") auto
    ultimately show ?thesis using True by (subst attach_from.simps) (simp del: not_None_eq)
  next
    case False
    then show ?thesis by (subst attach_from.simps) simp
  qed
qed

lemma attach_from_free:
  "i \<le> k \<Longrightarrow> k < n_children (h pr) \<Longrightarrow> children (h pr) ! k = None \<Longrightarrow>
   \<forall>m. i \<le> m \<and> m < k \<longrightarrow> children (h pr) ! m \<noteq> None \<Longrightarrow>
     attach_from i (Some c) pr h =
       Inr ((h(pr := (h pr)\<lparr>children := (children (h pr))[k := Some c]\<rparr>))
              (c := ((h(pr := (h pr)\<lparr>children := (children (h pr))[k := Some c]\<rparr>)) c)
                      \<lparr>parent := Some pr\<rparr>), IK_OK)"
proof (induction i "Some c" pr h rule: attach_from.induct)
  case (1 i pr h)
  show ?case
  proof (cases "i = k")
    case True
    then show ?thesis using "1.prems" by (subst attach_from.simps) (simp add: Let_def)
  next
    case False
    then have lt: "i < k" using "1.prems"(1) by simp
    then have occ: "children (h pr) ! i \<noteq> None" using "1.prems"(4) by simp
    have ilt: "i < n_children (h pr)" using lt "1.prems"(2) by simp
    have "attach_from (Suc i) (Some c) pr h =
       Inr ((h(pr := (h pr)\<lparr>children := (children (h pr))[k := Some c]\<rparr>))
              (c := ((h(pr := (h pr)\<lparr>children := (children (h pr))[k := Some c]\<rparr>)) c)
                      \<lparr>parent := Some pr\<rparr>), IK_OK)"
      using ilt occ lt "1.prems" by (intro "1.hyps") auto
    then show ?thesis using ilt occ by (subst attach_from.simps) (simp del: not_None_eq)
  qed
qed

text \<open>
  C8. When no slot of the parent is free, \<^verbatim>\<open>ik_attach_joint\<close> returns \<^verbatim>\<open>IK_ERROR\<close> and the
  heap is the one of before: neither joint is written. When slot \<open>k\<close> is the first free
  slot, it returns \<^verbatim>\<open>IK_OK\<close>; slot \<open>k\<close> of the parent holds the child, the other slots are
  unchanged, the child's \<^verbatim>\<open>parent\<close> is the parent, and nothing else is written.
\<close>

theorem attach_joint_contract:
  "((\<forall>k < n_children (h pr). children (h pr) ! k \<noteq> None) \<longrightarrow>
      ik_attach_joint (Some c) (Some pr) h = Inr (h, IK_ERROR))
   \<and> (\<forall>k. k < n_children (h pr) \<and> children (h pr) ! k = None
           \<and> (\<forall>m < k. children (h pr) ! m \<noteq> None) \<longrightarrow>
        (\<exists>h'. ik_attach_joint (Some c) (Some pr) h = Inr (h', IK_OK)
           \<and> children (h' pr) = (children (h pr))[k := Some c]
           \<and> children (h' pr) ! k = Some c
           \<and> parent (h' c) = Some pr
           \<and> (c \<noteq> pr \<longrightarrow> parent (h' pr) = parent (h pr) \<and> children (h' c) = children (h c))
           \<and> position (h' pr) = position (h pr) \<and> length_j (h' pr) = length_j (h pr)
           \<and> position (h' c) = position (h c) \<and> length_j (h' c) = length_j (h c)
           \<and> (\<forall>a. a \<noteq> pr \<and> a \<noteq> c \<longrightarrow> h' a = h a)))
   \<and> IK_OK \<noteq> IK_ERROR"
proof (intro conjI impI allI)
  assume "\<forall>k < n_children (h pr). children (h pr) ! k \<noteq> None"
  then show "ik_attach_joint (Some c) (Some pr) h = Inr (h, IK_ERROR)"
    by (simp add: ik_attach_joint_def attach_from_full)
next
  fix k
  assume a: "k < n_children (h pr) \<and> children (h pr) ! k = None
           \<and> (\<forall>m < k. children (h pr) ! m \<noteq> None)"
  let ?h1 = "h(pr := (h pr)\<lparr>children := (children (h pr))[k := Some c]\<rparr>)"
  let ?h' = "?h1(c := (?h1 c)\<lparr>parent := Some pr\<rparr>)"
  have run: "ik_attach_joint (Some c) (Some pr) h = Inr (?h', IK_OK)"
    using a attach_from_free[of 0 k h pr c] by (simp add: ik_attach_joint_def del: not_None_eq)
  have klen: "k < length (children (h pr))" using a by (simp add: n_children_def)
  show "\<exists>h'. ik_attach_joint (Some c) (Some pr) h = Inr (h', IK_OK)
           \<and> children (h' pr) = (children (h pr))[k := Some c]
           \<and> children (h' pr) ! k = Some c
           \<and> parent (h' c) = Some pr
           \<and> (c \<noteq> pr \<longrightarrow> parent (h' pr) = parent (h pr) \<and> children (h' c) = children (h c))
           \<and> position (h' pr) = position (h pr) \<and> length_j (h' pr) = length_j (h pr)
           \<and> position (h' c) = position (h c) \<and> length_j (h' c) = length_j (h c)
           \<and> (\<forall>a. a \<noteq> pr \<and> a \<noteq> c \<longrightarrow> h' a = h a)"
    by (rule exI[of _ ?h']) (use run klen in auto)
next
  show "IK_OK \<noteq> IK_ERROR" by (simp add: IK_OK_def IK_ERROR_def)
qed

theorem attach_joint_contract_witness:
  "ik_attach_joint (Some 2) (Some 0) (chain2 0 0 5 0) = Inr (chain2 0 0 5 0, IK_ERROR)
   \<and> (\<exists>h'. ik_attach_joint (Some 1) (Some 0) two_joints = Inr (h', IK_OK)
          \<and> children (h' 0) = [Some 1] \<and> parent (h' 1) = Some 0 \<and> parent (h' 0) = None)"
proof
  have full: "\<forall>k < n_children (chain2 0 0 5 0 0). children (chain2 0 0 5 0 0) ! k \<noteq> None"
    by (simp add: chain2_def n_children_def)
  have "(\<forall>k < n_children (chain2 0 0 5 0 0). children (chain2 0 0 5 0 0) ! k \<noteq> None) \<longrightarrow>
      ik_attach_joint (Some 2) (Some 0) (chain2 0 0 5 0) = Inr (chain2 0 0 5 0, IK_ERROR)"
    using attach_joint_contract[of "chain2 0 0 5 0" 0 2] by (rule conjunct1)
  then show "ik_attach_joint (Some 2) (Some 0) (chain2 0 0 5 0) = Inr (chain2 0 0 5 0, IK_ERROR)"
    using full by (rule mp)
next
  have free: "0 < n_children (two_joints 0) \<and> children (two_joints 0) ! 0 = None
           \<and> (\<forall>m < 0. children (two_joints 0) ! m \<noteq> None)"
    by (simp add: two_joints_def n_children_def)
  have ch0: "(children (two_joints 0))[0 := Some 1] = [Some 1]" "parent (two_joints 0) = None"
    by (simp_all add: two_joints_def)
  from attach_joint_contract[of two_joints 0 1, THEN conjunct2, THEN conjunct1, THEN spec, of 0, THEN mp, OF free]
  obtain h' where run: "ik_attach_joint (Some 1) (Some 0) two_joints = Inr (h', IK_OK)"
    and ch: "children (h' 0) = (children (two_joints 0))[0 := Some 1]"
    and pa: "parent (h' 1) = Some 0"
    and pa0: "(1::nat) \<noteq> 0 \<longrightarrow> parent (h' 0) = parent (two_joints 0) \<and> children (h' 1) = children (two_joints 1)"
    by (elim exE conjE)
  show "\<exists>h'. ik_attach_joint (Some 1) (Some 0) two_joints = Inr (h', IK_OK)
          \<and> children (h' 0) = [Some 1] \<and> parent (h' 1) = Some 0 \<and> parent (h' 0) = None"
    using run ch pa pa0 ch0 by (intro exI[of _ h']) simp
qed

lemma build_two_joints:
  "ik_new_joint (Some 0) 5 1 fresh
     = Inr (fresh(0 := \<lparr>position = \<lparr>vx = 0, vy = 0\<rparr>, length_j = 5, parent = None,
                         children = [None]\<rparr>), 0)"
  "ik_new_joint (Some 1) 5 0
       (fresh(0 := \<lparr>position = \<lparr>vx = 0, vy = 0\<rparr>, length_j = 5, parent = None,
                         children = [None]\<rparr>))
     = Inr (two_joints, 1)"
  by (simp_all add: ik_new_joint_def two_joints_def)

lemma build_chain2:
  "ik_attach_joint (Some 1) (Some 0) two_joints = Inr (chain2 0 0 0 0, IK_OK)"
  apply (simp add: ik_attach_joint_def)
  apply (subst attach_from.simps)
  apply (simp add: n_children_def chain2_def two_joints_def fun_eq_iff)
  done

section \<open>Translating a tree\<close>

lemma move_all_shift_back:
  "move_all (shift (- dx) (- dy)) A (move_all (shift dx dy) A h) = h"
  by (auto simp: move_all_def shift_def fun_eq_iff)

lemma translate_relative_tree:
  assumes "is_tree h t" and "height t \<le> fuel"
  shows "ik_translate_relative fuel (Some (root_of t)) dx dy h
           = Inr (move_all (shift dx dy) (set (nodes t)) h)"
  using assms by (simp add: is_tree_def translate_is_map_branch map_branch_tree)

lemma is_tree_move_all [simp]: "is_tree (move_all g A h) t = is_tree h t"
  by (simp add: is_tree_def)

lemma root_in_nodes: "root_of t \<in> set (nodes t)"
  by (cases t) simp

text \<open>
  C10. On a tree in the heap, with fuel for its height, \<^verbatim>\<open>ik_translate_relative\<close> by
  \<open>(dx, dy)\<close> returns, and \<^verbatim>\<open>ik_translate_relative\<close> by \<open>(-dx, -dy)\<close> on its result returns
  the heap of before: every joint is back where it was. The same holds for \<^verbatim>\<open>ik_translate\<close>
  to \<open>(x, y)\<close> and then back to where the root stood.
\<close>

theorem translate_round_trip:
  assumes "is_tree h t" and "height t \<le> fuel"
  shows "(\<exists>h'. ik_translate_relative fuel (Some (root_of t)) dx dy h = Inr h'
            \<and> ik_translate_relative fuel (Some (root_of t)) (- dx) (- dy) h' = Inr h)
       \<and> (\<exists>h'. ik_translate fuel (Some (root_of t)) x y h = Inr h'
            \<and> position (h' (root_of t)) = \<lparr>vx = x, vy = y\<rparr>
            \<and> ik_translate fuel (Some (root_of t))
                 (vx (position (h (root_of t)))) (vy (position (h (root_of t)))) h' = Inr h)"
proof
  let ?h' = "move_all (shift dx dy) (set (nodes t)) h"
  have "is_tree ?h' t" using assms(1) by simp
  then have "ik_translate_relative fuel (Some (root_of t)) (- dx) (- dy) ?h' = Inr h"
    using translate_relative_tree[of ?h' t fuel "- dx" "- dy"] assms(2)
    by (simp only: move_all_shift_back)
  then show "\<exists>h'. ik_translate_relative fuel (Some (root_of t)) dx dy h = Inr h'
            \<and> ik_translate_relative fuel (Some (root_of t)) (- dx) (- dy) h' = Inr h"
    using translate_relative_tree[OF assms] by simp
next
  let ?r = "root_of t"
  let ?dx = "x - vx (position (h ?r))"
  let ?dy = "y - vy (position (h ?r))"
  let ?h' = "move_all (shift ?dx ?dy) (set (nodes t)) h"
  have fwd: "ik_translate fuel (Some ?r) x y h = Inr ?h'"
    using translate_relative_tree[OF assms] by (simp add: ik_translate_def)
  have pos: "position (?h' ?r) = \<lparr>vx = x, vy = y\<rparr>"
    using root_in_nodes[of t] by (simp add: move_all_def shift_def)
  have "is_tree ?h' t" using assms(1) by simp
  then have "ik_translate_relative fuel (Some ?r) (- ?dx) (- ?dy) ?h' = Inr h"
    using translate_relative_tree[of ?h' t fuel "- ?dx" "- ?dy"] assms(2)
    by (simp only: move_all_shift_back)
  then have bck: "ik_translate fuel (Some ?r)
                 (vx (position (h ?r))) (vy (position (h ?r))) ?h' = Inr h"
    using pos by (simp add: ik_translate_def)
  show "\<exists>h'. ik_translate fuel (Some ?r) x y h = Inr h'
            \<and> position (h' ?r) = \<lparr>vx = x, vy = y\<rparr>
            \<and> ik_translate fuel (Some ?r)
                 (vx (position (h ?r))) (vy (position (h ?r))) h' = Inr h"
    using fwd pos bck by blast
qed

theorem translate_round_trip_witness:
  "(\<exists>h'. ik_translate_relative 2 (Some 0) 3 (- 4) (chain2 0 0 5 0) = Inr h'
      \<and> ik_translate_relative 2 (Some 0) (- 3) (- (- 4)) h' = Inr (chain2 0 0 5 0))
   \<and> (\<exists>h'. ik_translate 2 (Some 0) 7 1 (chain2 0 0 5 0) = Inr h'
      \<and> position (h' 0) = \<lparr>vx = 7, vy = 1\<rparr>
      \<and> ik_translate 2 (Some 0) 0 0 h' = Inr (chain2 0 0 5 0))"
proof -
  have t: "is_tree (chain2 0 0 5 0) (JNode 0 [JNode 1 []])"
    by (simp add: is_tree_def chain2_def)
  have ht: "height (JNode 0 [JNode 1 []]) \<le> 2"
    by simp
  show ?thesis
    using translate_round_trip[OF t ht, of 3 "- 4" 7 1] by (simp add: chain2_def)
qed

section \<open>Shapes and traversals\<close>

lemma same_shape_refl [simp]: "same_shape h h"
  by (simp add: same_shape_def)

lemma same_shape_trans: "same_shape h1 h2 \<Longrightarrow> same_shape h2 h3 \<Longrightarrow> same_shape h1 h3"
  by (simp add: same_shape_def)

lemma same_shape_set_position [simp]: "same_shape h (set_position a v h)"
  by (simp add: same_shape_def set_position_def)

lemma same_shape_move [simp]: "same_shape h (moved j d tx ty h)"
  by (subst move_frame) simp

lemma same_shape_move_all [simp]: "same_shape h (move_all g A h)"
  by (simp add: same_shape_def move_all_def)

lemma same_shape_fields:
  "same_shape h h' \<Longrightarrow> parent (h' a) = parent (h a)"
  "same_shape h h' \<Longrightarrow> children (h' a) = children (h a)"
  "same_shape h h' \<Longrightarrow> length_j (h' a) = length_j (h a)"
  "same_shape h h' \<Longrightarrow> n_children (h' a) = n_children (h a)"
  by (simp_all add: same_shape_def n_children_def)

lemma shaped_same_shape: "same_shape h h' \<Longrightarrow> shaped h' t = shaped h t"
  by (induction t) (auto simp: same_shape_def)

lemma for_each_invariant:
  assumes "for_each f xs s = Inr s'"
    and "\<And>x a b. x \<in> set xs \<Longrightarrow> f x a = Inr b \<Longrightarrow> R a b"
    and "\<And>a. R a a" and "\<And>a b c. R a b \<Longrightarrow> R b c \<Longrightarrow> R a c"
  shows "R s s'"
  using assms(1,2)
proof (induction xs arbitrary: s)
  case Nil
  then show ?case using assms(3) by simp
next
  case (Cons x xs)
  from Cons.prems(1) obtain m where m: "f x s = Inr m" and rest: "for_each f xs m = Inr s'"
    by (auto split: sum.splits)
  have "R s m" using Cons.prems(2)[of x s m] m by simp
  moreover have "R m s'"
  proof (rule Cons.IH[OF rest])
    fix y a b assume "y \<in> set xs" "f y a = Inr b"
    then show "R a b" using Cons.prems(2)[of y a b] by simp
  qed
  ultimately show ?case using assms(4) by blast
qed

lemma map_branch_same_shape:
  "map_branch fuel g r h = Inr h' \<Longrightarrow> same_shape h h'"
proof (induction fuel arbitrary: r h h')
  case 0
  then show ?case by simp
next
  case (Suc fuel)
  from Suc.prems obtain a where r: "r = Some a" by (cases r) auto
  let ?h1 = "set_position a (g (position (h a))) h"
  have run: "for_each (\<lambda>child. map_branch fuel g child) (children (?h1 a)) ?h1 = Inr h'"
    using Suc.prems r by (simp add: Let_def)
  have "same_shape ?h1 h'"
    by (rule for_each_invariant[OF run, where R = same_shape])
       (auto intro: Suc.IH same_shape_trans)
  then show ?case using same_shape_trans[of h ?h1 h'] by simp
qed

lemma for_each_cong_set:
  "(\<And>x s. x \<in> set xs \<Longrightarrow> f x s = g x s) \<Longrightarrow> for_each f xs s = for_each g xs s"
  by (induction xs arbitrary: s) (auto split: sum.splits)

lemma for_each_append:
  "for_each f (xs @ ys) s = (case for_each f xs s of Inl e \<Rightarrow> Inl e | Inr s' \<Rightarrow> for_each f ys s')"
  by (induction xs arbitrary: s) (auto split: sum.splits)

text \<open>The exact result of a traversal of a tree in the heap.\<close>

lemma fold_max_le: "fold max xs (m::nat) \<le> k \<longleftrightarrow> m \<le> k \<and> (\<forall>x \<in> set xs. x \<le> k)"
  by (induction xs arbitrary: m) auto

lemma for_each_subtrees_exact:
  assumes ih: "\<And>t h. t \<in> set ts \<Longrightarrow> shaped h t \<Longrightarrow> distinct (nodes t) \<Longrightarrow>
                 map_branch fuel g (Some (root_of t)) h
                   = (if height t \<le> fuel then Inr (move_all g (set (nodes t)) h) else Inl OutOfFuel)"
    and "\<forall>t \<in> set ts. shaped h t"
    and "distinct (concat (map nodes ts))"
  shows "for_each (\<lambda>child. map_branch fuel g child) (roots ts) h
           = (if \<forall>t \<in> set ts. height t \<le> fuel
              then Inr (move_all g (set (concat (map nodes ts))) h) else Inl OutOfFuel)"
  using assms
proof (induction ts arbitrary: h)
  case Nil
  show ?case by (simp add: roots_def)
next
  case (Cons t ts)
  have first: "map_branch fuel g (Some (root_of t)) h
                 = (if height t \<le> fuel then Inr (move_all g (set (nodes t)) h) else Inl OutOfFuel)"
    using Cons.prems by simp
  have rest: "for_each (\<lambda>child. map_branch fuel g child) (roots ts)
                (move_all g (set (nodes t)) h)
              = (if \<forall>t \<in> set ts. height t \<le> fuel
                 then Inr (move_all g (set (concat (map nodes ts))) (move_all g (set (nodes t)) h))
                 else Inl OutOfFuel)"
    using Cons.prems by (intro Cons.IH) auto
  have disj: "set (nodes t) \<inter> set (concat (map nodes ts)) = {}"
    using Cons.prems(3) by auto
  show ?case
    using first rest move_all_union[OF disj, of g h] by (simp add: roots_def)
qed

lemma map_branch_tree_exact:
  "shaped h t \<Longrightarrow> distinct (nodes t) \<Longrightarrow>
     map_branch fuel g (Some (root_of t)) h
       = (if height t \<le> fuel then Inr (move_all g (set (nodes t)) h) else Inl OutOfFuel)"
proof (induction t arbitrary: fuel h)
  case (JNode a ts)
  show ?case
  proof (cases fuel)
    case 0
    then show ?thesis by simp
  next
    case (Suc k)
    let ?h1 = "set_position a (g (position (h a))) h"
    have ch: "children (?h1 a) = roots ts"
      using JNode.prems(1) by (simp add: set_position_def roots_def)
    have sub: "for_each (\<lambda>child. map_branch k g child) (roots ts) ?h1
           = (if \<forall>t \<in> set ts. height t \<le> k
              then Inr (move_all g (set (concat (map nodes ts))) ?h1) else Inl OutOfFuel)"
    proof (rule for_each_subtrees_exact)
      fix t h'
      assume "t \<in> set ts" "shaped h' t" "distinct (nodes t)"
      then show "map_branch k g (Some (root_of t)) h'
                   = (if height t \<le> k then Inr (move_all g (set (nodes t)) h') else Inl OutOfFuel)"
        using JNode.IH[of t h' k] by simp
    next
      show "\<forall>t\<in>set ts. shaped ?h1 t" using JNode.prems(1) by simp
    next
      show "distinct (concat (map nodes ts))" using JNode.prems(2) by simp
    qed
    have notin: "a \<notin> set (concat (map nodes ts))" using JNode.prems(2) by simp
    have hs: "height (JNode a ts) \<le> fuel \<longleftrightarrow> (\<forall>t \<in> set ts. height t \<le> k)"
      using Suc by (simp add: fold_max_le)
    show ?thesis
      using sub ch move_all_insert[OF notin, of g h] hs Suc by simp
  qed
qed

section \<open>The rotation of a branch\<close>

lemma cauchy_schwarz_xy:
  fixes a b c d :: real
  shows "(a * c + b * d) * (a * c + b * d) \<le> (a * a + b * b) * (c * c + d * d)"
proof -
  have "(a * a + b * b) * (c * c + d * d) - (a * c + b * d) * (a * c + b * d)
          = (a * d - b * c) * (a * d - b * c)"
    by (simp add: algebra_simps)
  moreover have "0 \<le> (a * d - b * c) * (a * d - b * c)" by simp
  ultimately show ?thesis by linarith
qed

lemma length_xy_square: "length_xy x y * length_xy x y = x * x + y * y"
proof -
  have "0 \<le> x * x + y * y" by simp
  then show ?thesis unfolding length_xy_def by (metis abs_of_nonneg real_sqrt_mult_self real_sqrt_abs2 real_sqrt_mult)
qed

lemma sine_of_cosine:
  fixes c :: real
  assumes "c * c \<le> 1" and "p = 1 \<or> p = - 1"
  shows "c * c + (p * sqrt (if 1 - c * c > 0 then 1 - c * c else 0))
                 * (p * sqrt (if 1 - c * c > 0 then 1 - c * c else 0)) = 1"
proof -
  let ?s = "sqrt (if 1 - c * c > 0 then 1 - c * c else 0)"
  have "?s = sqrt (1 - c * c)" using assms(1) by (cases "1 - c * c > 0") auto
  moreover have "sqrt (1 - c * c) * sqrt (1 - c * c) = 1 - c * c"
    using assms(1) by simp
  ultimately have ss: "?s * ?s = 1 - c * c" by simp
  have "(p * ?s) * (p * ?s) = (p * p) * (?s * ?s)" by (simp only: mult_ac)
  also have "\<dots> = 1 - c * c"
  proof -
    have "p * p = 1" using assms(2) by auto
    then show ?thesis using ss by (simp only: mult_1)
  qed
  finally show ?thesis by simp
qed

lemma align_matrix_rotation:
  assumes nz: "length_xy (vx f) (vy f) * length_xy (vx t) (vy t) \<noteq> 0"
  shows "mat_C (align_matrix f t) * mat_C (align_matrix f t)
         + (mat_P (align_matrix f t) * mat_S (align_matrix f t))
           * (mat_P (align_matrix f t) * mat_S (align_matrix f t)) = 1"
proof -
  define d where "d = length_xy (vx f) (vy f) * length_xy (vx t) (vy t)"
  define n where "n = vx f * vx t + vy f * vy t"
  define c where "c = n / d"
  define p :: real where "p = (if vx f * vy t - vy f * vx t > 0 then 1 else - 1)"
  have dd: "d * d = (vx f * vx f + vy f * vy f) * (vx t * vx t + vy t * vy t)"
    using length_xy_square[of "vx f" "vy f"] length_xy_square[of "vx t" "vy t"]
    unfolding d_def by (simp add: algebra_simps)
  have "n * n \<le> d * d"
    unfolding dd n_def by (rule cauchy_schwarz_xy)
  moreover have dpos: "0 < d * d" using nz unfolding d_def
    by (metis mult_eq_0_iff not_real_square_gt_zero)
  ultimately have "(n * n) / (d * d) \<le> 1" by (simp add: divide_le_eq)
  then have c1: "c * c \<le> 1" unfolding c_def by (simp add: field_simps)
  have pp: "p = 1 \<or> p = - 1" unfolding p_def by simp
  have m: "align_matrix f t
             = \<lparr>mat_C = c, mat_S = sqrt (if 1 - c * c > 0 then 1 - c * c else 0), mat_P = p\<rparr>"
    unfolding align_matrix_def Let_def c_def n_def d_def p_def by simp
  show ?thesis
    unfolding m using sine_of_cosine[OF c1 pp] by simp
qed

lemma rotation_preserves_length:
  fixes c s x y :: real
  assumes "c * c + s * s = 1"
  shows "length_xy (c * x + (- s) * y) (s * x + c * y) = length_xy x y"
proof -
  have "(c * x + (- s) * y) * (c * x + (- s) * y) + (s * x + c * y) * (s * x + c * y)
          = (c * c + s * s) * (x * x + y * y)"
    by (simp add: algebra_simps)
  then show ?thesis unfolding length_xy_def using assms by simp
qed

lemma align_point_isometry:
  assumes "mat_C m * mat_C m + (mat_P m * mat_S m) * (mat_P m * mat_S m) = 1"
  shows "length_xy (vx (align_point pv m off u) - vx (align_point pv m off v))
                   (vy (align_point pv m off u) - vy (align_point pv m off v))
           = length_xy (vx u - vx v) (vy u - vy v)"
proof -
  have "length_xy (mat_C m * (vx u - vx v) + (- (mat_P m * mat_S m)) * (vy u - vy v))
                  ((mat_P m * mat_S m) * (vx u - vx v) + mat_C m * (vy u - vy v))
          = length_xy (vx u - vx v) (vy u - vy v)"
    by (rule rotation_preserves_length[OF assms])
  moreover have "vx (align_point pv m off u) - vx (align_point pv m off v)
          = mat_C m * (vx u - vx v) + (- (mat_P m * mat_S m)) * (vy u - vy v)"
    by (simp add: align_point_def Let_def algebra_simps)
  moreover have "vy (align_point pv m off u) - vy (align_point pv m off v)
          = (mat_P m * mat_S m) * (vx u - vx v) + mat_C m * (vy u - vy v)"
    by (simp add: align_point_def Let_def algebra_simps)
  ultimately show ?thesis by simp
qed

lemma align_point_fixes_origin:
  "align_point new m \<lparr>vx = vx new - ox, vy = vy new - oy\<rparr> \<lparr>vx = ox, vy = oy\<rparr> = new"
  by (simp add: align_point_def Let_def)

lemma shift_isometry:
  "length_xy (vx (shift dx dy u) - vx (shift dx dy v)) (vy (shift dx dy u) - vy (shift dx dy v))
     = length_xy (vx u - vx v) (vy u - vy v)"
  by (simp add: shift_def)

section \<open>Aligning sibling subtrees\<close>

lemma align_branch_subtree:
  assumes "shaped h t" and "distinct (nodes t)" and "parent (h (root_of t)) = Some p"
  shows "ik_align_branch fuel (Some (root_of t)) f tv h
           = (if length_xy (vx f) (vy f) * length_xy (vx tv) (vy tv) = 0 then Inl DivByZero
              else if height t \<le> fuel
                then Inr (move_all (align_point (position (h p)) (align_matrix f tv) (align_offset f tv))
                            (set (nodes t)) h)
                else Inl OutOfFuel)"
proof -
  have "ik_align_branch fuel (Some (root_of t)) f tv h
          = (if length_xy (vx f) (vy f) * length_xy (vx tv) (vy tv) = 0 then Inl DivByZero
             else ik_align_branch_precalc fuel (Some (root_of t)) (position (h p))
                    (align_matrix f tv) (align_offset f tv) h)"
    using assms(3)
    by (simp add: ik_align_branch_def fdiv_def align_matrix_def align_offset_def Let_def)
  then show ?thesis
    using map_branch_tree_exact[OF assms(1,2)] by (simp add: precalc_is_map_branch)
qed

lemma only_translate_subtree:
  assumes "shaped h t" and "distinct (nodes t)"
  shows "ik_align_branch_only_translate fuel (Some (root_of t)) dx dy h
           = (if height t \<le> fuel then Inr (move_all (shift dx dy) (set (nodes t)) h)
              else Inl OutOfFuel)"
  using map_branch_tree_exact[OF assms] by (simp add: only_translate_is_map_branch)

lemma move_all_position_outside: "a \<notin> A \<Longrightarrow> move_all g A h a = h a"
  by (simp add: move_all_def)

lemma move_all_parent [simp]: "parent (move_all g A h a) = parent (h a)"
  by (simp add: move_all_def)

lemma move_all_children [simp]: "children (move_all g A h a) = children (h a)"
  by (simp add: move_all_def)

lemma move_all_length [simp]: "length_j (move_all g A h a) = length_j (h a)"
  by (simp add: move_all_def)

lemma for_each_sibs:
  assumes body: "\<And>t h'. t \<in> set ts \<Longrightarrow> shaped h' t \<Longrightarrow> parent (h' (root_of t)) = Some p \<Longrightarrow>
                   position (h' p) = pos_p \<Longrightarrow>
                   B (Some (root_of t)) h'
                     = (if ok then (if height t \<le> fuel then Inr (move_all G (set (nodes t)) h')
                                    else Inl OutOfFuel)
                        else Inl err)"
    and "\<forall>t \<in> set ts. shaped h t \<and> parent (h (root_of t)) = Some p"
    and "distinct (concat (map nodes ts))"
    and "p \<notin> set (concat (map nodes ts))"
    and "position (h p) = pos_p"
    and "for_each B (roots ts) h = Inr h2"
  shows "h2 = move_all G (set (concat (map nodes ts))) h \<and> (ts \<noteq> [] \<longrightarrow> ok)"
  using assms
proof (induction ts arbitrary: h)
  case Nil
  then show ?case by (simp add: roots_def)
next
  case (Cons t ts)
  have first: "B (Some (root_of t)) h
                     = (if ok then (if height t \<le> fuel then Inr (move_all G (set (nodes t)) h)
                                    else Inl OutOfFuel)
                        else Inl err)"
    using Cons.prems(2,5) by (intro Cons.prems(1)) auto
  from Cons.prems(6) obtain m where m: "B (Some (root_of t)) h = Inr m"
    and rest: "for_each B (roots ts) m = Inr h2"
    by (auto simp: roots_def split: sum.splits)
  from first m have ok: ok and mm: "m = move_all G (set (nodes t)) h"
    by (auto split: if_splits)
  have pm: "position (m p) = pos_p"
    using Cons.prems(4,5) mm by (simp add: move_all_def)
  have "h2 = move_all G (set (concat (map nodes ts))) m \<and> (ts \<noteq> [] \<longrightarrow> ok)"
  proof (rule Cons.IH[OF _ _ _ _ pm rest])
    fix u h'
    assume "u \<in> set ts" "shaped h' u" "parent (h' (root_of u)) = Some p" "position (h' p) = pos_p"
    then show "B (Some (root_of u)) h'
                     = (if ok then (if height u \<le> fuel then Inr (move_all G (set (nodes u)) h')
                                    else Inl OutOfFuel)
                        else Inl err)"
      using Cons.prems(1)[of u h'] by simp
  next
    show "\<forall>t\<in>set ts. shaped m t \<and> parent (m (root_of t)) = Some p"
      using Cons.prems(2) mm by simp
  next
    show "distinct (concat (map nodes ts))" using Cons.prems(3) by simp
  next
    show "p \<notin> set (concat (map nodes ts))" using Cons.prems(4) by simp
  qed
  moreover have "set (nodes t) \<inter> set (concat (map nodes ts)) = {}"
    using Cons.prems(3) by auto
  ultimately show ?case
    using mm ok move_all_union[of "set (nodes t)" "set (concat (map nodes ts))" G h] by simp
qed

lemma for_each_skip:
  "(\<And>s. f x s = Inr s) \<Longrightarrow> for_each f (xs @ x # ys) s = for_each f (xs @ ys) s"
  by (induction xs arbitrary: s) (auto split: sum.splits)

lemma roots_append: "roots l @ roots r = roots (l @ r)"
  by (simp add: roots_def)

lemma root_in_nodes_list: "t \<in> set ts \<Longrightarrow> root_of t \<in> set (concat (map nodes ts))"
  using root_in_nodes by auto

lemma distinct_nodes_member:
  "distinct (concat (map nodes ts)) \<Longrightarrow> t \<in> set ts \<Longrightarrow> distinct (nodes t)"
  by (induction ts) auto

lemma align_children_frame:
  assumes ch: "children (h p) = roots l @ Some c # roots r"
    and sib: "\<forall>t \<in> set (l @ r). parent (h (root_of t)) = Some p \<and> shaped h t"
    and dis: "distinct (p # c # concat (map nodes (l @ r)))"
    and run: "align_children fuel p (Some c) ox oy h = Inr h2"
  shows "\<exists>G. h2 = move_all G (set (concat (map nodes (l @ r)))) h
           \<and> (l @ r \<noteq> [] \<longrightarrow>
                (\<forall>u v. length_xy (vx (G u) - vx (G v)) (vy (G u) - vy (G v))
                         = length_xy (vx u - vx v) (vy u - vy v))
                \<and> G \<lparr>vx = ox, vy = oy\<rparr> = position (h p))"
proof (cases "parent (h p)")
  case None
  define B where "B = (\<lambda>child h'. if child \<noteq> Some c
               then ik_align_branch_only_translate fuel child
                      (vx (position (h' p)) - ox) (vy (position (h' p)) - oy) h'
               else Inr h')"
  define G where "G = shift (vx (position (h p)) - ox) (vy (position (h p)) - oy)"
  have "for_each B (roots l @ Some c # roots r) h = Inr h2"
    using run None ch unfolding align_children_def B_def by simp
  then have fe: "for_each B (roots (l @ r)) h = Inr h2"
    by (subst (asm) for_each_skip) (simp_all add: B_def roots_append)
  have "h2 = move_all G (set (concat (map nodes (l @ r)))) h \<and> (l @ r \<noteq> [] \<longrightarrow> True)"
  proof (rule for_each_sibs[where B = B and p = p and pos_p = "position (h p)" and fuel = fuel
          and err = OutOfFuel, OF _ _ _ _ _ fe])
    fix t h'
    assume t: "t \<in> set (l @ r)" and sh: "shaped h' t" and pp: "position (h' p) = position (h p)"
    have ne: "root_of t \<noteq> c" using root_in_nodes_list[OF t] dis by auto
    have dt: "distinct (nodes t)" using distinct_nodes_member[OF _ t] dis by simp
    show "B (Some (root_of t)) h'
            = (if True then (if height t \<le> fuel then Inr (move_all G (set (nodes t)) h')
                             else Inl OutOfFuel)
               else Inl OutOfFuel)"
      using ne pp only_translate_subtree[OF sh dt] by (simp add: B_def G_def)
  next
    show "\<forall>t\<in>set (l @ r). shaped h t \<and> parent (h (root_of t)) = Some p" using sib by simp
  next
    show "distinct (concat (map nodes (l @ r)))" using dis by simp
  next
    show "p \<notin> set (concat (map nodes (l @ r)))" using dis by simp
  qed simp
  moreover have "G \<lparr>vx = ox, vy = oy\<rparr> = position (h p)"
    by (simp add: G_def shift_def)
  moreover have "\<forall>u v. length_xy (vx (G u) - vx (G v)) (vy (G u) - vy (G v))
                         = length_xy (vx u - vx v) (vy u - vy v)"
    unfolding G_def by (simp add: shift_isometry)
  ultimately show ?thesis by blast
next
  case (Some pr)
  define fv where "fv = \<lparr>vx = ox - vx (position (h pr)), vy = oy - vy (position (h pr))\<rparr>"
  define tv where "tv = \<lparr>vx = vx (position (h p)) - vx (position (h pr)),
                       vy = vy (position (h p)) - vy (position (h pr))\<rparr>"
  define B where "B = (\<lambda>child h'. if child \<noteq> Some c
               then ik_align_branch fuel child fv tv h' else Inr h')"
  define G where "G = align_point (position (h p)) (align_matrix fv tv) (align_offset fv tv)"
  define ok where "ok = (length_xy (vx fv) (vy fv) * length_xy (vx tv) (vy tv) \<noteq> 0)"
  have "for_each B (roots l @ Some c # roots r) h = Inr h2"
    using run Some ch unfolding align_children_def B_def fv_def tv_def by (simp add: Let_def)
  then have fe: "for_each B (roots (l @ r)) h = Inr h2"
    by (subst (asm) for_each_skip) (simp_all add: B_def roots_append)
  have res: "h2 = move_all G (set (concat (map nodes (l @ r)))) h \<and> (l @ r \<noteq> [] \<longrightarrow> ok)"
  proof (rule for_each_sibs[where B = B and p = p and pos_p = "position (h p)" and fuel = fuel
          and err = DivByZero, OF _ _ _ _ _ fe])
    fix t h'
    assume t: "t \<in> set (l @ r)" and sh: "shaped h' t" and pt: "parent (h' (root_of t)) = Some p"
      and pp: "position (h' p) = position (h p)"
    have ne: "root_of t \<noteq> c" using root_in_nodes_list[OF t] dis by auto
    have dt: "distinct (nodes t)" using distinct_nodes_member[OF _ t] dis by simp
    show "B (Some (root_of t)) h'
            = (if ok then (if height t \<le> fuel then Inr (move_all G (set (nodes t)) h')
                             else Inl OutOfFuel)
               else Inl DivByZero)"
      using ne pp align_branch_subtree[OF sh dt pt, of fuel fv tv] by (simp add: B_def G_def ok_def)
  next
    show "\<forall>t\<in>set (l @ r). shaped h t \<and> parent (h (root_of t)) = Some p" using sib by simp
  next
    show "distinct (concat (map nodes (l @ r)))" using dis by simp
  next
    show "p \<notin> set (concat (map nodes (l @ r)))" using dis by simp
  qed simp
  have off: "align_offset fv tv = \<lparr>vx = vx (position (h p)) - ox, vy = vy (position (h p)) - oy\<rparr>"
    by (simp add: align_offset_def fv_def tv_def)
  have org: "G \<lparr>vx = ox, vy = oy\<rparr> = position (h p)"
    unfolding G_def off by (rule align_point_fixes_origin)
  have iso: "\<forall>u v. length_xy (vx (G u) - vx (G v)) (vy (G u) - vy (G v))
                         = length_xy (vx u - vx v) (vy u - vy v)" if ok
    unfolding G_def using align_point_isometry[OF align_matrix_rotation] that
    by (simp add: ok_def)
  show ?thesis using res org iso by blast
qed

section \<open>One step on the path\<close>

lemma rigid_on_unchanged: "(\<forall>a \<in> A. h' a = h a) \<Longrightarrow> rigid_on A h h'"
  by (simp add: rigid_on_def dist_j_def)

lemma rigid_on_trans: "rigid_on A h1 h2 \<Longrightarrow> rigid_on A h2 h3 \<Longrightarrow> rigid_on A h1 h3"
  by (simp add: rigid_on_def)

lemma frames_rigid_refl [simp]: "frames_rigid fs h h"
  by (simp add: frames_rigid_def rigid_on_def)

lemma frames_rigid_Cons:
  assumes 1: "frames_rigid [f] h1 h2" and 2: "frames_rigid fs h2 h3"
    and d: "set (frame_nodes f) \<inter> set (concat (map frame_nodes fs)) = {}"
  shows "frames_rigid (f # fs) h1 h3"
proof -
  have ss: "same_shape h1 h3"
    using 1 2 same_shape_trans unfolding frames_rigid_def by blast
  have o1: "h2 a = h1 a" if "a \<notin> set (frame_nodes f)" for a
    using 1 that unfolding frames_rigid_def by simp
  have o2: "h3 a = h2 a" if "a \<notin> set (concat (map frame_nodes fs))" for a
    using 2 that unfolding frames_rigid_def by blast
  have out: "\<forall>a. a \<notin> set (concat (map frame_nodes (f # fs))) \<longrightarrow> h3 a = h1 a"
    using o1 o2 by simp
  have rf: "rigid_on (set (frame_nodes f)) h1 h3"
  proof (rule rigid_on_trans)
    show "rigid_on (set (frame_nodes f)) h1 h2" using 1 by (simp add: frames_rigid_def)
    have "\<forall>a \<in> set (frame_nodes f). h3 a = h2 a"
    proof
      fix a assume "a \<in> set (frame_nodes f)"
      then have "a \<notin> set (concat (map frame_nodes fs))" using d by blast
      then show "h3 a = h2 a" by (rule o2)
    qed
    then show "rigid_on (set (frame_nodes f)) h2 h3" by (rule rigid_on_unchanged)
  qed
  have rg: "rigid_on (set (frame_nodes g)) h1 h3" if g: "g \<in> set fs" for g
  proof (rule rigid_on_trans)
    have "\<forall>a \<in> set (frame_nodes g). h2 a = h1 a"
    proof
      fix a assume "a \<in> set (frame_nodes g)"
      then have "a \<in> set (concat (map frame_nodes fs))" using g by auto
      then have "a \<notin> set (frame_nodes f)" using d by blast
      then show "h2 a = h1 a" by (rule o1)
    qed
    then show "rigid_on (set (frame_nodes g)) h1 h2" by (rule rigid_on_unchanged)
    show "rigid_on (set (frame_nodes g)) h2 h3" using 2 g by (simp add: frames_rigid_def)
  qed
  show ?thesis unfolding frames_rigid_def using ss out rf rg by auto
qed

lemma frames_rigid_snoc:
  assumes 1: "frames_rigid [f] h1 h2" and 2: "frames_rigid fs h2 h3"
    and d: "set (frame_nodes f) \<inter> set (concat (map frame_nodes fs)) = {}"
  shows "frames_rigid (fs @ [f]) h1 h3"
proof -
  have "frames_rigid (f # fs) h1 h3" by (rule frames_rigid_Cons[OF 1 2 d])
  then show ?thesis unfolding frames_rigid_def by auto
qed

lemma link_ok_same_shape: "same_shape h h' \<Longrightarrow> link_ok h' c f = link_ok h c f"
  by (cases f) (auto simp: same_shape_fields shaped_same_shape)

lemma links_same_shape: "same_shape h h' \<Longrightarrow> links h' c fs = links h c fs"
  by (induction fs arbitrary: c) (auto simp: link_ok_same_shape)

lemma links_append: "links h c (fs @ gs) = (links h c fs \<and> links h (top_of c fs) gs)"
  by (induction fs arbitrary: c) auto

lemma top_of_append: "top_of c (fs @ gs) = top_of (top_of c fs) gs"
  by (induction fs arbitrary: c) auto

lemma pushed_snoc:
  "pushed c (fs @ [(p, l, r)]) = (if l @ r \<noteq> [] then [top_of c fs] else []) @ pushed c fs"
  by (induction fs arbitrary: c) auto

lemma record_eta: "\<lparr>vx = vx q, vy = vy q\<rparr> = q"
  by simp

lemma move_other: "a \<noteq> p \<Longrightarrow> moved p d tx ty h a = h a"
  by (subst move_frame) (simp add: set_position_def)

lemma branch_step:
  assumes ch: "children (h0 p) = roots l @ Some c # roots r"
    and sib: "\<forall>t \<in> set (l @ r). parent (h0 (root_of t)) = Some p \<and> shaped h0 t"
    and dis: "distinct (p # c # concat (map nodes (l @ r)))"
    and h1: "h1 = moved p d tx ty h0"
    and pc: "l @ r \<noteq> [] \<longrightarrow> pc = Some c"
    and run: "(if n_children (h1 p) > 1
               then align_children fuel p pc (vx (position (h0 p))) (vy (position (h0 p))) h1
               else Inr h1) = Inr h2"
  shows "frames_rigid [(p, l, r)] h0 h2" and "position (h2 p) = position (h1 p)" and "h2 c = h0 c"
proof -
  let ?S = "set (concat (map nodes (l @ r)))"
  have ss1: "same_shape h0 h1" unfolding h1 by simp
  have n: "n_children (h1 p) > 1 \<longleftrightarrow> l @ r \<noteq> []"
    using ch same_shape_fields(4)[OF ss1, of p] by (auto simp: n_children_def roots_def)
  have pS: "p \<notin> ?S" and cS: "c \<notin> ?S" and cp: "c \<noteq> p" using dis by auto
  have "\<exists>G. h2 = move_all G ?S h1
           \<and> (l @ r \<noteq> [] \<longrightarrow>
                (\<forall>u v. length_xy (vx (G u) - vx (G v)) (vy (G u) - vy (G v))
                         = length_xy (vx u - vx v) (vy u - vy v))
                \<and> G \<lparr>vx = vx (position (h0 p)), vy = vy (position (h0 p))\<rparr> = position (h1 p))"
  proof (cases "l @ r = []")
    case True
    then have "h2 = h1" using run n by simp
    then show ?thesis using True by (intro exI[of _ id]) simp
  next
    case False
    then have run': "align_children fuel p (Some c) (vx (position (h0 p))) (vy (position (h0 p))) h1 = Inr h2"
      using run n pc by simp
    show ?thesis
    proof (rule align_children_frame[OF _ _ dis run'])
      show "children (h1 p) = roots l @ Some c # roots r"
        using ch same_shape_fields(2)[OF ss1] by simp
      show "\<forall>t\<in>set (l @ r). parent (h1 (root_of t)) = Some p \<and> shaped h1 t"
        using sib same_shape_fields(1)[OF ss1] shaped_same_shape[OF ss1] by simp
    qed
  qed
  then obtain G where h2: "h2 = move_all G ?S h1"
    and iso: "l @ r \<noteq> [] \<Longrightarrow> length_xy (vx (G u) - vx (G v)) (vy (G u) - vy (G v))
                         = length_xy (vx u - vx v) (vy u - vy v)"
    and org: "l @ r \<noteq> [] \<Longrightarrow> G (position (h0 p)) = position (h1 p)" for u v
    by (auto simp: record_eta)
  show pos: "position (h2 p) = position (h1 p)"
    using pS by (simp add: h2 move_all_def)
  show "h2 c = h0 c"
    using cS cp by (simp add: h2 move_all_def h1 move_other)
  have ss: "same_shape h0 h2"
    using ss1 same_shape_trans[of h0 h1 h2] by (simp add: h2)
  have out: "h2 a = h0 a" if "a \<notin> set (frame_nodes (p, l, r))" for a
    using that by (simp add: h2 move_all_def h1 move_other)
  have rig: "rigid_on (set (frame_nodes (p, l, r))) h0 h2"
  proof (cases "l @ r = []")
    case True
    then show ?thesis by (auto simp: rigid_on_def dist_j_def)
  next
    case False
    have img: "position (h2 a) = G (position (h0 a))" if "a \<in> set (frame_nodes (p, l, r))" for a
    proof (cases "a = p")
      case True
      then show ?thesis using pos org[OF False] by simp
    next
      case False
      then have "a \<in> ?S" using that by simp
      then show ?thesis using False by (simp add: h2 move_all_def h1 move_other)
    qed
    show ?thesis
      unfolding rigid_on_def dist_j_def using img iso[OF False] by simp
  qed
  show "frames_rigid [(p, l, r)] h0 h2"
    unfolding frames_rigid_def using ss out rig by simp
qed

section \<open>The reach-back pass\<close>

lemma reach_back_Inr:
  assumes "ik_reach_back fuel j tx ty d s = Inr res"
  shows "\<exists>k h2. fuel = Suc k
           \<and> (if n_children (moved j d tx ty (heap s) j) > 1
               then align_children k j (ik_stack_top s)
                      (vx (position (heap s j))) (vy (position (heap s j)))
                      (moved j d tx ty (heap s))
               else Inr (moved j d tx ty (heap s))) = Inr h2
           \<and> (case parent (h2 j) of
                 None \<Rightarrow> res = (s\<lparr>heap := h2\<rparr>, j, vx (position (heap s j)), vy (position (heap s j)))
               | Some pr \<Rightarrow>
                   (\<exists>s1. (if n_children (h2 pr) > 1 then ik_stack_push j (s\<lparr>heap := h2\<rparr>)
                           else Inr (s\<lparr>heap := h2\<rparr>)) = Inr s1
                        \<and> ik_reach_back k pr (vx (position (h2 j))) (vy (position (h2 j)))
                             (length_j (h2 j)) s1 = Inr res))"
proof (cases fuel)
  case 0
  then show ?thesis using assms by simp
next
  case (Suc k)
  show ?thesis
    using assms unfolding Suc ik_reach_back.simps Let_def move_total
    by (auto split: sum.splits option.splits)
qed

lemma top_of_in_frames: "top_of (fst g) gs \<in> set (concat (map frame_nodes (g # gs)))"
proof (induction gs arbitrary: g)
  case Nil
  show ?case by (cases g) auto
next
  case (Cons a gs)
  show ?case using Cons[of a] by auto
qed

lemma stack_push_Inr:
  "ik_stack_push j s = Inr s1 \<Longrightarrow>
     s1 = s\<lparr>stack := j # stack s, n_push := Suc (n_push s)\<rparr>"
  by (auto simp: ik_stack_push_def split: if_splits)

lemma frame_distinct:
  "distinct (c # concat (map frame_nodes ((p, l, r) # fs))) \<Longrightarrow>
     distinct (p # c # concat (map nodes (l @ r)))"
proof -
  assume a: "distinct (c # concat (map frame_nodes ((p, l, r) # fs)))"
  have "c # concat (map frame_nodes ((p, l, r) # fs))
          = (c # p # concat (map nodes (l @ r))) @ concat (map frame_nodes fs)"
    by simp
  then have "distinct (c # p # concat (map nodes (l @ r)))"
    using a distinct_append by metis
  then show ?thesis by auto
qed

lemma frame_distinct_rest:
  "distinct (c # concat (map frame_nodes ((p, l, r) # fs))) \<Longrightarrow>
     distinct (p # concat (map frame_nodes fs))"
proof -
  assume a: "distinct (c # concat (map frame_nodes ((p, l, r) # fs)))"
  have "c # concat (map frame_nodes ((p, l, r) # fs))
          = (c # [p]) @ concat (map nodes (l @ r)) @ concat (map frame_nodes fs)"
    by simp
  then have "distinct ((c # [p]) @ concat (map nodes (l @ r)) @ concat (map frame_nodes fs))"
    using a by metis
  then have "distinct ([p] @ concat (map frame_nodes fs))"
    unfolding distinct_append by auto
  then show ?thesis by simp
qed

lemma frame_disjoint_rest:
  "distinct (c # concat (map frame_nodes ((p, l, r) # fs))) \<Longrightarrow>
     set (frame_nodes (p, l, r)) \<inter> set (concat (map frame_nodes fs)) = {}"
proof -
  assume a: "distinct (c # concat (map frame_nodes ((p, l, r) # fs)))"
  have "c # concat (map frame_nodes ((p, l, r) # fs))
          = [c] @ frame_nodes (p, l, r) @ concat (map frame_nodes fs)"
    by simp
  then have "distinct ([c] @ frame_nodes (p, l, r) @ concat (map frame_nodes fs))"
    using a by metis
  then show ?thesis
    unfolding distinct_append by blast
qed

lemma reach_back_frames:
  assumes "link_ok (heap s) c f" and "links (heap s) (fst f) fs"
    and "parent (heap s (top_of (fst f) fs)) = None"
    and "distinct (c # concat (map frame_nodes (f # fs)))"
    and "snd f \<noteq> ([], []) \<longrightarrow> ik_stack_top s = Some c"
    and "ik_reach_back fuel (fst f) tx ty d s = Inr (s', rt, ox, oy)"
  shows "rt = top_of (fst f) fs \<and> ox = vx (position (heap s rt)) \<and> oy = vy (position (heap s rt))
       \<and> frames_rigid (f # fs) (heap s) (heap s')
       \<and> stack s' = pushed (fst f) fs @ stack s
       \<and> n_push s' = n_push s + length (pushed (fst f) fs) \<and> n_pop s' = n_pop s"
  using assms
proof (induction fs arbitrary: f c s tx ty d fuel)
  case Nil
  obtain p l r where f: "f = (p, l, r)" by (cases f) auto
  let ?h0 = "heap s"
  let ?h1 = "moved p d tx ty ?h0"
  have run: "ik_reach_back fuel p tx ty d s = Inr (s', rt, ox, oy)"
    using Nil.prems(6) f by simp
  from reach_back_Inr[OF run] obtain k h2 where
    br: "(if n_children (?h1 p) > 1
               then align_children k p (ik_stack_top s)
                      (vx (position (?h0 p))) (vy (position (?h0 p))) ?h1
               else Inr ?h1) = Inr h2"
    and nx: "(case parent (h2 p) of
                 None \<Rightarrow> (s', rt, ox, oy) = (s\<lparr>heap := h2\<rparr>, p, vx (position (?h0 p)), vy (position (?h0 p)))
               | Some pr \<Rightarrow>
                   (\<exists>s1. (if n_children (h2 pr) > 1 then ik_stack_push p (s\<lparr>heap := h2\<rparr>)
                           else Inr (s\<lparr>heap := h2\<rparr>)) = Inr s1
                        \<and> ik_reach_back k pr (vx (position (h2 p))) (vy (position (h2 p)))
                             (length_j (h2 p)) s1 = Inr (s', rt, ox, oy)))"
    by blast
  have fr: "frames_rigid [(p, l, r)] ?h0 h2"
  proof (rule branch_step(1)[OF _ _ _ refl _ br])
    show "children (?h0 p) = roots l @ Some c # roots r" using Nil.prems(1) f by simp
    show "\<forall>t\<in>set (l @ r). parent (?h0 (root_of t)) = Some p \<and> shaped ?h0 t"
      using Nil.prems(1) f by simp
    show "distinct (p # c # concat (map nodes (l @ r)))"
      using Nil.prems(4) unfolding f by (rule frame_distinct)
    show "l @ r \<noteq> [] \<longrightarrow> ik_stack_top s = Some c" using Nil.prems(5) f by simp
  qed
  have ss: "same_shape ?h0 h2" using fr by (simp add: frames_rigid_def)
  have "parent (h2 p) = None"
    using Nil.prems(3) f same_shape_fields(1)[OF ss, of p] by simp
  then have "(s', rt, ox, oy) = (s\<lparr>heap := h2\<rparr>, p, vx (position (?h0 p)), vy (position (?h0 p)))"
    using nx by simp
  then show ?case using fr f by simp
next
  case (Cons g gs)
  obtain p l r where f: "f = (p, l, r)" by (cases f) auto
  obtain p' l' r' where g: "g = (p', l', r')" by (cases g) auto
  let ?h0 = "heap s"
  let ?h1 = "moved p d tx ty ?h0"
  have run: "ik_reach_back fuel p tx ty d s = Inr (s', rt, ox, oy)"
    using Cons.prems(6) f by simp
  from reach_back_Inr[OF run] obtain k h2 where
    br: "(if n_children (?h1 p) > 1
               then align_children k p (ik_stack_top s)
                      (vx (position (?h0 p))) (vy (position (?h0 p))) ?h1
               else Inr ?h1) = Inr h2"
    and nx: "(case parent (h2 p) of
                 None \<Rightarrow> (s', rt, ox, oy) = (s\<lparr>heap := h2\<rparr>, p, vx (position (?h0 p)), vy (position (?h0 p)))
               | Some pr \<Rightarrow>
                   (\<exists>s1. (if n_children (h2 pr) > 1 then ik_stack_push p (s\<lparr>heap := h2\<rparr>)
                           else Inr (s\<lparr>heap := h2\<rparr>)) = Inr s1
                        \<and> ik_reach_back k pr (vx (position (h2 p))) (vy (position (h2 p)))
                             (length_j (h2 p)) s1 = Inr (s', rt, ox, oy)))"
    by blast
  have fr: "frames_rigid [(p, l, r)] ?h0 h2"
  proof (rule branch_step(1)[OF _ _ _ refl _ br])
    show "children (?h0 p) = roots l @ Some c # roots r" using Cons.prems(1) f by simp
    show "\<forall>t\<in>set (l @ r). parent (?h0 (root_of t)) = Some p \<and> shaped ?h0 t"
      using Cons.prems(1) f by simp
    show "distinct (p # c # concat (map nodes (l @ r)))"
      using Cons.prems(4) unfolding f by (rule frame_distinct)
    show "l @ r \<noteq> [] \<longrightarrow> ik_stack_top s = Some c" using Cons.prems(5) f by simp
  qed
  then have ss: "same_shape ?h0 h2" by (simp add: frames_rigid_def)
  have lk: "link_ok ?h0 p g" and ls: "links ?h0 p' gs"
    using Cons.prems(2) f g by simp_all
  have par: "parent (h2 p) = Some p'"
    using lk g same_shape_fields(1)[OF ss] by simp
  have nc: "n_children (h2 p') > 1 \<longleftrightarrow> l' @ r' \<noteq> []"
    using lk g same_shape_fields(4)[OF ss, of p'] by (auto simp: n_children_def roots_def)
  from nx par obtain s1 where
    push: "(if n_children (h2 p') > 1 then ik_stack_push p (s\<lparr>heap := h2\<rparr>)
                           else Inr (s\<lparr>heap := h2\<rparr>)) = Inr s1"
    and rec: "ik_reach_back k p' (vx (position (h2 p))) (vy (position (h2 p)))
                             (length_j (h2 p)) s1 = Inr (s', rt, ox, oy)"
    by auto
  have s1: "s1 = (if l' @ r' \<noteq> []
                  then s\<lparr>heap := h2, stack := p # stack s, n_push := Suc (n_push s)\<rparr>
                  else s\<lparr>heap := h2\<rparr>)"
    using push nc stack_push_Inr[of p "s\<lparr>heap := h2\<rparr>" s1] by (auto split: if_splits)
  have hs1: "heap s1 = h2" using s1 by simp
  have ih: "rt = top_of (fst g) gs \<and> ox = vx (position (heap s1 rt)) \<and> oy = vy (position (heap s1 rt))
       \<and> frames_rigid (g # gs) (heap s1) (heap s')
       \<and> stack s' = pushed (fst g) gs @ stack s1
       \<and> n_push s' = n_push s1 + length (pushed (fst g) gs) \<and> n_pop s' = n_pop s1"
  proof (rule Cons.IH[where c = p])
    show "link_ok (heap s1) p g" using lk link_ok_same_shape[OF ss] hs1 by simp
    show "links (heap s1) (fst g) gs" using ls links_same_shape[OF ss] hs1 g by simp
    show "parent (heap s1 (top_of (fst g) gs)) = None"
      using Cons.prems(3) same_shape_fields(1)[OF ss] hs1 f g by simp
    show "distinct (p # concat (map frame_nodes (g # gs)))"
      using Cons.prems(4) unfolding f by (rule frame_distinct_rest)
    show "snd g \<noteq> ([], []) \<longrightarrow> ik_stack_top s1 = Some p"
      using s1 g by (auto simp: ik_stack_top_def)
    show "ik_reach_back k (fst g) (vx (position (h2 p))) (vy (position (h2 p)))
                             (length_j (h2 p)) s1 = Inr (s', rt, ox, oy)"
      using rec g by simp
  qed
  have disj: "set (frame_nodes (p, l, r)) \<inter> set (concat (map frame_nodes (g # gs))) = {}"
    using Cons.prems(4) unfolding f by (rule frame_disjoint_rest)
  have rtin: "rt \<in> set (concat (map frame_nodes (g # gs)))"
    using ih top_of_in_frames[of g gs] by simp
  then have "rt \<notin> set (frame_nodes (p, l, r))" using disj by blast
  then have rt0: "h2 rt = ?h0 rt" using fr by (simp add: frames_rigid_def)
  have "frames_rigid ((p, l, r) # g # gs) ?h0 (heap s')"
    using frames_rigid_Cons[OF fr _ disj] ih hs1 by simp
  then show ?case
    using ih rt0 hs1 s1 f g by auto
qed

section \<open>The reach-forward pass\<close>

lemma spine_placed_snoc:
  "spine_placed h0 h (ys @ [g, f]) = (spine_placed h0 h (ys @ [g]) \<and> placed h0 h (fst g) (fst f))"
proof (induction h0 h ys rule: spine_placed.induct)
  case (1 h0 h)
  show ?case by simp
next
  case (2 h0 h a)
  show ?case by auto
next
  case (3 h0 h a b fs)
  then show ?case by auto
qed

lemma placed_cong:
  "position (h0 c) = position (h0' c) \<Longrightarrow> length_j (h0 c) = length_j (h0' c) \<Longrightarrow>
     placed h0 h c p = placed h0' h c p"
  by (simp add: placed_def move_position)

lemma spine_placed_cong:
  "\<forall>f \<in> set fs. h0 (fst f) = h0' (fst f) \<Longrightarrow>
     spine_placed h0 h fs = spine_placed h0' h fs"
proof (induction h0 h fs rule: spine_placed.induct)
  case (1 h0 h)
  show ?case by simp
next
  case (2 h0 h f)
  show ?case by simp
next
  case (3 h0 h f g fs)
  then show ?case using placed_cong[of h0 "fst f" h0' h "fst g"] by simp
qed

lemma n_children_move [simp]:
  "n_children (moved j d tx ty h a) = n_children (h a)"
  using same_shape_fields(4)[OF same_shape_move] by simp

lemma children_move [simp]:
  "children (moved j d tx ty h a) = children (h a)"
  using same_shape_fields(2)[OF same_shape_move] by simp

lemma stack_top_heap [simp]: "ik_stack_top (s\<lparr>heap := h\<rparr>) = ik_stack_top s"
  by (simp add: ik_stack_top_def)

lemma stack_pop_eq:
  "ik_stack_pop s = (ik_stack_top s, s\<lparr>stack := tl (stack s), n_pop := Suc (n_pop s)\<rparr>)"
  by (cases "stack s") (simp_all add: ik_stack_pop_def ik_stack_top_def)

lemma reach_forward_Inr:
  assumes run: "ik_reach_forward fuel j d tx ty s = Inr s'"
    and nz: "n_children (heap s j) \<noteq> 0"
  shows "\<exists>k h2 c'. fuel = Suc k
           \<and> (if n_children (moved j d tx ty (heap s) j) > 1
               then align_children k j (ik_stack_top s)
                      (vx (position (heap s j))) (vy (position (heap s j)))
                      (moved j d tx ty (heap s))
               else Inr (moved j d tx ty (heap s))) = Inr h2
           \<and> (if 1 < n_children (heap s j) then ik_stack_top s else children (heap s j) ! 0) = Some c'
           \<and> ik_reach_forward k c' (length_j (h2 c')) (vx (position (h2 j))) (vy (position (h2 j)))
                ((if 1 < n_children (heap s j)
                  then s\<lparr>stack := tl (stack s), n_pop := Suc (n_pop s)\<rparr> else s)\<lparr>heap := h2\<rparr>)
               = Inr s'"
proof (cases fuel)
  case 0
  then show ?thesis using run by simp
next
  case (Suc k)
  show ?thesis
  proof (cases "1 < n_children (heap s j)")
    case True
    then show ?thesis
      using run nz unfolding Suc ik_reach_forward.simps Let_def move_total
      by (auto simp: stack_pop_eq split: sum.splits option.splits if_splits)
  next
    case False
    then show ?thesis
      using run nz unfolding Suc ik_reach_forward.simps Let_def move_total
      by (auto split: sum.splits option.splits if_splits)
  qed
qed

lemma reach_forward_leaf:
  assumes "ik_reach_forward fuel j d tx ty s = Inr s'" and "n_children (heap s j) = 0"
  shows "s' = s\<lparr>heap := moved j d tx ty (heap s)\<rparr>"
  using assms by (cases fuel) (simp_all add: Let_def move_total)



lemma snoc_distinct:
  "distinct (L # concat (map frame_nodes (ys @ [(p, l, r)]))) \<Longrightarrow>
     distinct (p # top_of L ys # concat (map nodes (l @ r)))
     \<and> distinct (L # concat (map frame_nodes ys))
     \<and> set (frame_nodes (p, l, r)) \<inter> set (concat (map frame_nodes ys)) = {}
     \<and> L \<notin> set (frame_nodes (p, l, r))"
proof -
  assume a: "distinct (L # concat (map frame_nodes (ys @ [(p, l, r)])))"
  have e: "L # concat (map frame_nodes (ys @ [(p, l, r)]))
          = (L # concat (map frame_nodes ys)) @ frame_nodes (p, l, r)"
    by simp
  have d: "distinct ((L # concat (map frame_nodes ys)) @ frame_nodes (p, l, r))"
    using a unfolding e .
  have t: "top_of L ys \<in> set (L # concat (map frame_nodes ys))"
  proof (cases ys)
    case Nil
    then show ?thesis by simp
  next
    case (Cons g gs)
    then show ?thesis using top_of_in_frames[of g gs] by simp
  qed
  have 1: "distinct (frame_nodes (p, l, r))" and 2: "distinct (L # concat (map frame_nodes ys))"
    and 3: "set (L # concat (map frame_nodes ys)) \<inter> set (frame_nodes (p, l, r)) = {}"
    using d unfolding distinct_append by auto
  have "top_of L ys \<notin> set (frame_nodes (p, l, r))" using t 3 by blast
  then have "distinct (p # top_of L ys # concat (map nodes (l @ r)))" using 1 by auto
  moreover have "set (frame_nodes (p, l, r)) \<inter> set (concat (map frame_nodes ys)) = {}"
    using 3 by auto
  moreover have "L \<notin> set (frame_nodes (p, l, r))" using 3 by auto
  ultimately show ?thesis using 2 by blast
qed

lemma fst_in_frames: "f \<in> set fs \<Longrightarrow> fst f \<in> set (concat (map frame_nodes fs))"
proof -
  assume a: "f \<in> set fs"
  obtain p l r where f: "f = (p, l, r)" by (cases f) auto
  show ?thesis using a f by (auto intro!: bexI[of _ "(p, l, r)"])
qed

lemma hd_snoc_frames: "fst (hd (ys @ [g, f])) = fst (hd (ys @ [g]))"
  by (cases ys) auto

lemma reach_forward_frames:
  assumes "links (heap s) L ys" and "link_ok (heap s) (top_of L ys) f"
    and "distinct (L # concat (map frame_nodes (ys @ [f])))"
    and "stack s = pushed L (ys @ [f]) @ rest"
    and "ik_reach_forward fuel (fst f) d tx ty s = Inr s'"
  shows "\<exists>k sm. ik_reach_forward k L (length_j (heap s L))
                  (vx (position (heap sm (fst (hd (ys @ [f]))))))
                  (vy (position (heap sm (fst (hd (ys @ [f])))))) sm = Inr s'
           \<and> stack sm = rest \<and> n_pop sm = n_pop s + length (pushed L (ys @ [f]))
           \<and> n_push sm = n_push s
           \<and> frames_rigid (ys @ [f]) (heap s) (heap sm)
           \<and> spine_placed (heap s) (heap sm) (ys @ [f])
           \<and> position (heap sm (fst f))
               = position (moved (fst f) d tx ty (heap s) (fst f))"
  using assms
proof (induction ys arbitrary: f s d tx ty fuel rule: rev_induct)
  case Nil
  obtain p l r where f: "f = (p, l, r)" by (cases f) auto
  let ?h0 = "heap s"
  let ?h1 = "moved p d tx ty ?h0"
  have lk: "children (?h0 p) = roots l @ Some L # roots r"
    and sib: "\<forall>t\<in>set (l @ r). parent (?h0 (root_of t)) = Some p \<and> shaped ?h0 t"
    using Nil.prems(2) f by simp_all
  have nc: "1 < n_children (?h0 p) \<longleftrightarrow> l @ r \<noteq> []" and nz: "n_children (?h0 p) \<noteq> 0"
    using lk by (auto simp: n_children_def roots_def)
  have run: "ik_reach_forward fuel p d tx ty s = Inr s'" using Nil.prems(5) f by simp
  have st: "stack s = (if l @ r \<noteq> [] then [L] else []) @ rest"
    using Nil.prems(4) f by simp
  from reach_forward_Inr[OF run nz] obtain k h2 c' where
    br: "(if n_children (?h1 p) > 1
               then align_children k p (ik_stack_top s)
                      (vx (position (?h0 p))) (vy (position (?h0 p))) ?h1
               else Inr ?h1) = Inr h2"
    and c': "(if 1 < n_children (?h0 p) then ik_stack_top s else children (?h0 p) ! 0) = Some c'"
    and rec: "ik_reach_forward k c' (length_j (h2 c')) (vx (position (h2 p))) (vy (position (h2 p)))
                ((if 1 < n_children (?h0 p)
                  then s\<lparr>stack := tl (stack s), n_pop := Suc (n_pop s)\<rparr> else s)\<lparr>heap := h2\<rparr>)
               = Inr s'"
    by blast
  have top: "l @ r \<noteq> [] \<longrightarrow> ik_stack_top s = Some L"
    using st by (simp add: ik_stack_top_def)
  have dis: "distinct (p # L # concat (map nodes (l @ r)))"
    using snoc_distinct[of L "[]" p l r] Nil.prems(3) f by simp
  have fr: "frames_rigid [(p, l, r)] ?h0 h2" and pos: "position (h2 p) = position (?h1 p)"
    and hL: "h2 L = ?h0 L"
    using branch_step[OF lk sib dis refl top br] by simp_all
  have cL: "c' = L"
  proof (cases "l @ r = []")
    case True
    then show ?thesis using c' nc lk by (simp add: roots_def)
  next
    case False
    then show ?thesis using c' nc top by simp
  qed
  let ?sm = "(if 1 < n_children (?h0 p)
                  then s\<lparr>stack := tl (stack s), n_pop := Suc (n_pop s)\<rparr> else s)\<lparr>heap := h2\<rparr>"
  have a: "ik_reach_forward k L (length_j (?h0 L))
                  (vx (position (heap ?sm p))) (vy (position (heap ?sm p))) ?sm = Inr s'"
    using rec cL hL by simp
  have b: "stack ?sm = rest" "n_pop ?sm = n_pop s + length (pushed L [f])" "n_push ?sm = n_push s"
    using st nc f by auto
  show ?case
    apply (rule exI[of _ k], rule exI[of _ ?sm])
    using a b fr pos f by simp
next
  case (snoc g ys)
  obtain p l r where f: "f = (p, l, r)" by (cases f) auto
  obtain c lg rg where g: "g = (c, lg, rg)" by (cases g) auto
  let ?h0 = "heap s"
  let ?h1 = "moved p d tx ty ?h0"
  have tp: "top_of L (ys @ [g]) = c" using g by (simp add: top_of_append)
  have lk: "children (?h0 p) = roots l @ Some c # roots r"
    and sib: "\<forall>t\<in>set (l @ r). parent (?h0 (root_of t)) = Some p \<and> shaped ?h0 t"
    using snoc.prems(2) f tp by simp_all
  have nc: "1 < n_children (?h0 p) \<longleftrightarrow> l @ r \<noteq> []" and nz: "n_children (?h0 p) \<noteq> 0"
    using lk by (auto simp: n_children_def roots_def)
  have run: "ik_reach_forward fuel p d tx ty s = Inr s'" using snoc.prems(5) f by simp
  have st: "stack s = (if l @ r \<noteq> [] then [c] else []) @ pushed L (ys @ [g]) @ rest"
    using snoc.prems(4) f tp pushed_snoc[of L "ys @ [g]" p l r] by simp
  from reach_forward_Inr[OF run nz] obtain k h2 c' where
    br: "(if n_children (?h1 p) > 1
               then align_children k p (ik_stack_top s)
                      (vx (position (?h0 p))) (vy (position (?h0 p))) ?h1
               else Inr ?h1) = Inr h2"
    and c': "(if 1 < n_children (?h0 p) then ik_stack_top s else children (?h0 p) ! 0) = Some c'"
    and rec: "ik_reach_forward k c' (length_j (h2 c')) (vx (position (h2 p))) (vy (position (h2 p)))
                ((if 1 < n_children (?h0 p)
                  then s\<lparr>stack := tl (stack s), n_pop := Suc (n_pop s)\<rparr> else s)\<lparr>heap := h2\<rparr>)
               = Inr s'"
    by blast
  have top: "l @ r \<noteq> [] \<longrightarrow> ik_stack_top s = Some c"
    using st by (simp add: ik_stack_top_def)
  have sd: "distinct (p # c # concat (map nodes (l @ r)))"
     "distinct (L # concat (map frame_nodes (ys @ [g])))"
     "set (frame_nodes (p, l, r)) \<inter> set (concat (map frame_nodes (ys @ [g]))) = {}"
     "L \<notin> set (frame_nodes (p, l, r))"
    using snoc_distinct[of L "ys @ [g]" p l r] snoc.prems(3) f tp by simp_all
  have fr: "frames_rigid [(p, l, r)] ?h0 h2" and pos: "position (h2 p) = position (?h1 p)"
    and hc: "h2 c = ?h0 c"
    using branch_step[OF lk sib sd(1) refl top br] by simp_all
  have ss: "same_shape ?h0 h2" using fr by (simp add: frames_rigid_def)
  have hL: "h2 L = ?h0 L" using fr sd(4) by (simp add: frames_rigid_def)
  have cc: "c' = c"
  proof (cases "l @ r = []")
    case True
    then show ?thesis using c' nc lk by (simp add: roots_def)
  next
    case False
    then show ?thesis using c' nc top by simp
  qed
  let ?s2 = "(if 1 < n_children (?h0 p)
                  then s\<lparr>stack := tl (stack s), n_pop := Suc (n_pop s)\<rparr> else s)\<lparr>heap := h2\<rparr>"
  have hs2: "heap ?s2 = h2" by simp
  have st2: "stack ?s2 = pushed L (ys @ [g]) @ rest"
    and np2: "n_pop ?s2 = n_pop s + (if l @ r \<noteq> [] then 1 else 0)" and nq2: "n_push ?s2 = n_push s"
    using st nc by auto
  have l0: "links ?h0 L ys" "link_ok ?h0 (top_of L ys) g"
    using snoc.prems(1) by (simp_all add: links_append)
  have "\<exists>k' sm. ik_reach_forward k' L (length_j (heap ?s2 L))
                  (vx (position (heap sm (fst (hd (ys @ [g]))))))
                  (vy (position (heap sm (fst (hd (ys @ [g])))))) sm = Inr s'
           \<and> stack sm = rest \<and> n_pop sm = n_pop ?s2 + length (pushed L (ys @ [g]))
           \<and> n_push sm = n_push ?s2
           \<and> frames_rigid (ys @ [g]) (heap ?s2) (heap sm)
           \<and> spine_placed (heap ?s2) (heap sm) (ys @ [g])
           \<and> position (heap sm (fst g))
               = position (moved (fst g) (length_j (h2 c)) (vx (position (h2 p)))
                    (vy (position (h2 p))) (heap ?s2) (fst g))"
  proof (rule snoc.IH)
    show "links (heap ?s2) L ys" unfolding hs2 using l0(1) links_same_shape[OF ss] by simp
    show "link_ok (heap ?s2) (top_of L ys) g"
      unfolding hs2 using l0(2) link_ok_same_shape[OF ss] by simp
    show "distinct (L # concat (map frame_nodes (ys @ [g])))" by (rule sd(2))
    show "stack ?s2 = pushed L (ys @ [g]) @ rest" by (rule st2)
    show "ik_reach_forward k (fst g) (length_j (h2 c)) (vx (position (h2 p)))
            (vy (position (h2 p))) ?s2 = Inr s'"
      using rec cc g by simp
  qed
  then obtain k' sm where
    a: "ik_reach_forward k' L (length_j (heap ?s2 L))
                  (vx (position (heap sm (fst (hd (ys @ [g]))))))
                  (vy (position (heap sm (fst (hd (ys @ [g])))))) sm = Inr s'"
    and b: "stack sm = rest" "n_pop sm = n_pop ?s2 + length (pushed L (ys @ [g]))"
           "n_push sm = n_push ?s2"
    and frm: "frames_rigid (ys @ [g]) (heap ?s2) (heap sm)"
    and sp: "spine_placed (heap ?s2) (heap sm) (ys @ [g])"
    and pg: "position (heap sm (fst g))
               = position (moved (fst g) (length_j (h2 c)) (vx (position (h2 p)))
                    (vy (position (h2 p))) (heap ?s2) (fst g))"
    by blast
  have frm': "frames_rigid (ys @ [g]) h2 (heap sm)" using frm by simp
  have pout: "p \<notin> set (concat (map frame_nodes (ys @ [g])))" using sd(3) by auto
  have pm: "heap sm p = h2 p" using frm' pout unfolding frames_rigid_def by blast
  have ssm: "same_shape h2 (heap sm)" using frm' by (simp add: frames_rigid_def)
  have e: "placed ?h0 (heap sm) c p"
    using pg g pm hc by (simp add: placed_def move_position)
  have "\<forall>fr' \<in> set (ys @ [g]). h2 (fst fr') = ?h0 (fst fr')"
  proof
    fix fr' assume "fr' \<in> set (ys @ [g])"
    then have "fst fr' \<in> set (concat (map frame_nodes (ys @ [g])))"
      by (rule fst_in_frames)
    then have "fst fr' \<notin> set (frame_nodes (p, l, r))" using sd(3) by blast
    then show "h2 (fst fr') = ?h0 (fst fr')" using fr unfolding frames_rigid_def by simp
  qed
  then have sp0: "spine_placed ?h0 (heap sm) (ys @ [g])"
    using sp spine_placed_cong[of "ys @ [g]" h2 ?h0 "heap sm"] by simp
  have A: "ik_reach_forward k' L (length_j (?h0 L))
                  (vx (position (heap sm (fst (hd ((ys @ [g]) @ [f]))))))
                  (vy (position (heap sm (fst (hd ((ys @ [g]) @ [f])))))) sm = Inr s'"
    using a hL hd_snoc_frames[of ys g f] by simp
  have B: "n_pop sm = n_pop s + length (pushed L ((ys @ [g]) @ [f]))"
    using b(2) np2 f pushed_snoc[of L "ys @ [g]" p l r] by simp
  have C: "frames_rigid ((ys @ [g]) @ [f]) ?h0 (heap sm)"
    using frames_rigid_snoc[OF fr frm' sd(3)] f by simp
  have D: "spine_placed ?h0 (heap sm) ((ys @ [g]) @ [f])"
    using spine_placed_snoc[of ?h0 "heap sm" ys g f] sp0 e f g by simp
  have E: "position (heap sm (fst f)) = position (moved (fst f) d tx ty ?h0 (fst f))"
    using pm pos f by simp
  show ?case
    apply (rule exI[of _ k'], rule exI[of _ sm])
    using A B C D E b(1,3) nq2 by simp
qed

lemma align_branch_same_shape:
  assumes "ik_align_branch fuel r f t h = Inr h'"
  shows "same_shape h h'"
proof -
  from assms obtain pv m off where "ik_align_branch_precalc fuel r pv m off h = Inr h'"
    unfolding ik_align_branch_def Let_def
    by (auto split: if_splits option.splits sum.splits)
  then show ?thesis
    unfolding precalc_is_map_branch by (rule map_branch_same_shape)
qed

lemma align_children_same_shape:
  assumes "align_children fuel j pc ox oy h = Inr h'"
  shows "same_shape h h'"
proof (cases "parent (h j)")
  case None
  define B where "B = (\<lambda>child h'. if child \<noteq> pc
               then ik_align_branch_only_translate fuel child
                      (vx (position (h' j)) - ox) (vy (position (h' j)) - oy) h'
               else Inr h')"
  have run: "for_each B (children (h j)) h = Inr h'"
    using assms None by (simp add: align_children_def B_def)
  show ?thesis
  proof (rule for_each_invariant[OF run, where R = same_shape])
    fix x a b assume "B x a = Inr b"
    then show "same_shape a b"
      unfolding B_def only_translate_is_map_branch
      by (cases "x \<noteq> pc") (auto dest: map_branch_same_shape)
  qed (simp, rule same_shape_trans)
next
  case (Some pr)
  define fv where "fv = \<lparr>vx = ox - vx (position (h pr)), vy = oy - vy (position (h pr))\<rparr>"
  define tv where "tv = \<lparr>vx = vx (position (h j)) - vx (position (h pr)),
                       vy = vy (position (h j)) - vy (position (h pr))\<rparr>"
  define B where "B = (\<lambda>child h'. if child \<noteq> pc
               then ik_align_branch fuel child fv tv h' else Inr h')"
  have run: "for_each B (children (h j)) h = Inr h'"
    using assms Some unfolding align_children_def B_def fv_def tv_def by (simp add: Let_def)
  show ?thesis
  proof (rule for_each_invariant[OF run, where R = same_shape])
    fix x a b assume "B x a = Inr b"
    then show "same_shape a b"
      unfolding B_def
      by (cases "x \<noteq> pc") (auto dest: align_branch_same_shape)
  qed (simp, rule same_shape_trans)
qed

lemma links_top_root_only:
  "links h c fs \<Longrightarrow> parent (h (top_of c fs)) = None \<Longrightarrow> fs \<noteq> [] \<Longrightarrow> parent (h c) = Some (fst (hd fs))"
  by (cases fs) (auto split: prod.splits)

text \<open>The reach-back pass from the effected joint.\<close>

lemma reach_back_from:
  assumes lk: "links (heap s) E fs" and rt: "parent (heap s (top_of E fs)) = None"
    and dis: "distinct (E # concat (map frame_nodes fs))"
    and run: "ik_reach_back fuel E tx ty d s = Inr (s', rt, ox, oy)"
  shows "rt = top_of E fs \<and> same_shape (heap s) (heap s')
       \<and> stack s' = pushed E fs @ stack s
       \<and> n_push s' = n_push s + length (pushed E fs) \<and> n_pop s' = n_pop s
       \<and> (n_children (heap s E) \<le> 1 \<longrightarrow>
            ox = vx (position (heap s rt)) \<and> oy = vy (position (heap s rt))
            \<and> frames_rigid fs (moved E d tx ty (heap s)) (heap s')
            \<and> heap s' E = moved E d tx ty (heap s) E)"
proof -
  let ?h0 = "heap s"
  let ?h1 = "moved E d tx ty ?h0"
  from reach_back_Inr[OF run] obtain k h2 where
    br: "(if n_children (?h1 E) > 1
               then align_children k E (ik_stack_top s)
                      (vx (position (?h0 E))) (vy (position (?h0 E))) ?h1
               else Inr ?h1) = Inr h2"
    and nx: "(case parent (h2 E) of
                 None \<Rightarrow> (s', rt, ox, oy) = (s\<lparr>heap := h2\<rparr>, E, vx (position (?h0 E)), vy (position (?h0 E)))
               | Some pr \<Rightarrow>
                   (\<exists>s1. (if n_children (h2 pr) > 1 then ik_stack_push E (s\<lparr>heap := h2\<rparr>)
                           else Inr (s\<lparr>heap := h2\<rparr>)) = Inr s1
                        \<and> ik_reach_back k pr (vx (position (h2 E))) (vy (position (h2 E)))
                             (length_j (h2 E)) s1 = Inr (s', rt, ox, oy)))"
    by blast
  have ss1: "same_shape ?h1 h2"
  proof (cases "n_children (?h1 E) > 1")
    case True
    then show ?thesis using br align_children_same_shape by simp
  next
    case False
    then show ?thesis using br by simp
  qed
  have ss: "same_shape ?h0 h2"
    using same_shape_trans[OF same_shape_move ss1] .
  have h21: "n_children (?h0 E) \<le> 1 \<Longrightarrow> h2 = ?h1" using br by (auto split: if_splits)
  show ?thesis
  proof (cases fs)
    case Nil
    then have "parent (h2 E) = None" using rt same_shape_fields(1)[OF ss, of E] by simp
    then have "(s', rt, ox, oy) = (s\<lparr>heap := h2\<rparr>, E, vx (position (?h0 E)), vy (position (?h0 E)))"
      using nx by simp
    then show ?thesis using Nil ss h21 by auto
  next
    case (Cons g gs)
    obtain p l r where g: "g = (p, l, r)" by (cases g) auto
    have lk0: "link_ok ?h0 E g" and ls0: "links ?h0 p gs" using lk Cons g by simp_all
    have par: "parent (h2 E) = Some p"
      using lk0 g same_shape_fields(1)[OF ss, of E] by simp
    have nc: "n_children (h2 p) > 1 \<longleftrightarrow> l @ r \<noteq> []"
      using lk0 g same_shape_fields(4)[OF ss, of p] by (auto simp: n_children_def roots_def)
    from nx par obtain s1 where
      push: "(if n_children (h2 p) > 1 then ik_stack_push E (s\<lparr>heap := h2\<rparr>)
                           else Inr (s\<lparr>heap := h2\<rparr>)) = Inr s1"
      and rec: "ik_reach_back k p (vx (position (h2 E))) (vy (position (h2 E)))
                             (length_j (h2 E)) s1 = Inr (s', rt, ox, oy)"
      by auto
    have s1: "s1 = (if l @ r \<noteq> []
                  then s\<lparr>heap := h2, stack := E # stack s, n_push := Suc (n_push s)\<rparr>
                  else s\<lparr>heap := h2\<rparr>)"
      using push nc stack_push_Inr[of E "s\<lparr>heap := h2\<rparr>" s1] by (auto split: if_splits)
    have hs1: "heap s1 = h2" using s1 by simp
    have B: "rt = top_of (fst g) gs \<and> ox = vx (position (heap s1 rt)) \<and> oy = vy (position (heap s1 rt))
       \<and> frames_rigid (g # gs) (heap s1) (heap s')
       \<and> stack s' = pushed (fst g) gs @ stack s1
       \<and> n_push s' = n_push s1 + length (pushed (fst g) gs) \<and> n_pop s' = n_pop s1"
    proof (rule reach_back_frames[where c = E])
      show "link_ok (heap s1) E g" using lk0 link_ok_same_shape[OF ss] hs1 by simp
      show "links (heap s1) (fst g) gs" using ls0 links_same_shape[OF ss] hs1 g by simp
      show "parent (heap s1 (top_of (fst g) gs)) = None"
        using rt same_shape_fields(1)[OF ss] hs1 Cons g by simp
      show "distinct (E # concat (map frame_nodes (g # gs)))" using dis Cons by simp
      show "snd g \<noteq> ([], []) \<longrightarrow> ik_stack_top s1 = Some E"
        using s1 g by (auto simp: ik_stack_top_def)
      show "ik_reach_back k (fst g) (vx (position (h2 E))) (vy (position (h2 E)))
                             (length_j (h2 E)) s1 = Inr (s', rt, ox, oy)"
        using rec g by simp
    qed
    then have fr: "frames_rigid fs h2 (heap s')" using hs1 Cons by simp
    have ssb: "same_shape h2 (heap s')" using fr by (simp add: frames_rigid_def)
    have rtin: "rt \<in> set (concat (map frame_nodes (g # gs)))"
      using B top_of_in_frames[of g gs] by simp
    have rtE: "rt \<noteq> E" using rtin dis Cons by auto
    have h1rt: "?h1 rt = ?h0 rt" using rtE by (simp add: move_other)
    have Eout: "E \<notin> set (concat (map frame_nodes fs))" using dis by simp
    have hE: "heap s' E = h2 E" using fr Eout unfolding frames_rigid_def by blast
    have basic: "rt = top_of E fs \<and> same_shape (heap s) (heap s')
       \<and> stack s' = pushed E fs @ stack s
       \<and> n_push s' = n_push s + length (pushed E fs) \<and> n_pop s' = n_pop s"
      using B s1 Cons g same_shape_trans[OF ss ssb] by auto
    have cond: "ox = vx (position (heap s rt)) \<and> oy = vy (position (heap s rt))
            \<and> frames_rigid fs ?h1 (heap s')
            \<and> heap s' E = ?h1 E" if "n_children (?h0 E) \<le> 1"
      using h21[OF that] B hs1 h1rt fr hE by simp
    show ?thesis using basic cond by blast
  qed
qed

section \<open>A whole call\<close>

lemma top_of_in_path: "top_of L gs \<in> set (L # concat (map frame_nodes gs))"
proof (cases gs)
  case Nil
  then show ?thesis by simp
next
  case (Cons g gs')
  then show ?thesis using top_of_in_frames[of g gs'] by simp
qed

lemma path_distinct_above:
  assumes "distinct (L # concat (map frame_nodes (gs @ fs)))"
  shows "distinct (top_of L gs # concat (map frame_nodes fs))"
    and "set (L # concat (map frame_nodes gs)) \<inter> set (concat (map frame_nodes fs)) = {}"
proof -
  have e: "L # concat (map frame_nodes (gs @ fs))
             = (L # concat (map frame_nodes gs)) @ concat (map frame_nodes fs)"
    by simp
  have d: "distinct ((L # concat (map frame_nodes gs)) @ concat (map frame_nodes fs))"
    using assms unfolding e .
  then have 1: "distinct (concat (map frame_nodes fs))"
    and 2: "set (L # concat (map frame_nodes gs)) \<inter> set (concat (map frame_nodes fs)) = {}"
    unfolding distinct_append by auto
  show "set (L # concat (map frame_nodes gs)) \<inter> set (concat (map frame_nodes fs)) = {}"
    by (rule 2)
  have "top_of L gs \<notin> set (concat (map frame_nodes fs))"
    using top_of_in_path[of L gs] 2 by blast
  then show "distinct (top_of L gs # concat (map frame_nodes fs))" using 1 by simp
qed

lemma pushed_append: "pushed L (gs @ fs) = pushed (top_of L gs) fs @ pushed L gs"
  by (induction gs arbitrary: L) auto

lemma pushed_no_siblings: "\<forall>f \<in> set gs. snd f = ([], []) \<Longrightarrow> pushed L gs = []"
  by (induction gs arbitrary: L) auto

lemma effected_children:
  assumes "links h L gs" and "n_children (h L) \<le> 1" and "\<forall>f \<in> set gs. snd f = ([], [])"
  shows "n_children (h (top_of L gs)) \<le> 1"
  using assms
proof (induction gs arbitrary: L)
  case Nil
  then show ?case by simp
next
  case (Cons g gs)
  obtain p where g: "g = (p, [], [])" using Cons.prems(3) by (cases g) auto
  have ch: "children (h p) = [Some L]" using Cons.prems(1) g by (simp add: roots_def)
  have "n_children (h (top_of p gs)) \<le> 1"
  proof (rule Cons.IH)
    show "links h p gs" using Cons.prems(1) g by simp
    show "n_children (h p) \<le> 1" using ch by (simp add: n_children_def)
    show "\<forall>f\<in>set gs. snd f = ([], [])" using Cons.prems(3) by simp
  qed
  then show ?case using g by simp
qed

lemma move_zero_position [simp]:
  "position (moved j 0 tx ty h j) = \<lparr>vx = tx, vy = ty\<rparr>"
  by (simp add: move_position)

lemma placed_cong2:
  "h c = h' c \<Longrightarrow> h p = h' p \<Longrightarrow> placed h0 h c p = placed h0 h' c p"
  by (simp add: placed_def)

lemma spine_placed_cong2:
  "\<forall>f \<in> set fs. h (fst f) = h' (fst f) \<Longrightarrow>
     spine_placed h0 h fs = spine_placed h0 h' fs"
proof (induction h0 h fs rule: spine_placed.induct)
  case (1 h0 h)
  show ?case by simp
next
  case (2 h0 h f)
  show ?case by simp
next
  case (3 h0 h f g fs)
  then show ?case using placed_cong2[of h "fst f" h' "fst g" h0] by simp
qed

lemma solve_Inr:
  assumes "ik_solve fuel (Some E) tx ty s = Inr (s2, r)"
  shows "\<exists>s1 rt ox oy. ik_reach_back fuel E tx ty 0 s = Inr (s1, rt, ox, oy)
           \<and> ik_reach_forward fuel rt 0 ox oy s1 = Inr s2 \<and> r = 1"
  using assms unfolding ik_solve_def by (auto split: sum.splits)

lemma solve_on_path:
  assumes sp: "solved_path (heap s) L gs fs" and E: "E = top_of L gs"
    and run: "ik_solve fuel (Some E) tx ty s = Inr (s2, r)"
  shows "\<exists>hb. r = 1 \<and> stack s2 = stack s
           \<and> n_push s2 = n_push s + length (pushed E fs)
           \<and> n_pop s2 = n_pop s + length (pushed E fs)
           \<and> same_shape (heap s) (heap s2)
           \<and> (\<forall>f \<in> set fs. rigid_on (set (frame_nodes f)) (heap s) (heap s2))
           \<and> position (heap s2 (top_of L (gs @ fs))) = position (heap s (top_of L (gs @ fs)))
           \<and> (\<forall>a. a \<notin> set (L # concat (map frame_nodes (gs @ fs))) \<longrightarrow> heap s2 a = heap s a)
           \<and> same_shape (heap s) hb
           \<and> position (hb E) = \<lparr>vx = tx, vy = ty\<rparr>
           \<and> (\<forall>a \<in> set (L # concat (map frame_nodes gs)). a \<noteq> E \<longrightarrow> hb a = heap s a)
           \<and> (gs @ fs \<noteq> [] \<longrightarrow> placed hb (heap s2) L (fst (hd (gs @ fs))))
           \<and> spine_placed hb (heap s2) (gs @ fs)"
proof -
  let ?h = "heap s"
  let ?h1 = "moved E 0 tx ty ?h"
  let ?rt = "top_of L (gs @ fs)"
  let ?N = "length (pushed E fs)"
  have lk: "links ?h L (gs @ fs)" and leaf: "children (?h L) = []"
    and ns: "\<forall>f \<in> set gs. snd f = ([], [])" and rootp: "parent (?h ?rt) = None"
    and dis: "distinct (L # concat (map frame_nodes (gs @ fs)))"
    using sp by (simp_all add: solved_path_def)
  from solve_Inr[OF run] obtain s1 rt ox oy where
    bk: "ik_reach_back fuel E tx ty 0 s = Inr (s1, rt, ox, oy)"
    and fwd: "ik_reach_forward fuel rt 0 ox oy s1 = Inr s2" and r: "r = 1"
    by blast
  have lkE: "links ?h E fs" and lkL: "links ?h L gs" using lk E by (simp_all add: links_append)
  have rtE: "top_of E fs = ?rt" using E by (simp add: top_of_append)
  have disE: "distinct (E # concat (map frame_nodes fs))"
    and disj: "set (L # concat (map frame_nodes gs)) \<inter> set (concat (map frame_nodes fs)) = {}"
    using path_distinct_above[OF dis] E by simp_all
  have nE: "n_children (?h E) \<le> 1"
    unfolding E using effected_children[OF lkL _ ns] leaf by (simp add: n_children_def)
  have Ein: "E \<in> set (L # concat (map frame_nodes gs))" unfolding E by (rule top_of_in_path)
  let ?hb = "heap s1"
  have B: "rt = top_of E fs \<and> same_shape ?h ?hb
       \<and> stack s1 = pushed E fs @ stack s
       \<and> n_push s1 = n_push s + ?N \<and> n_pop s1 = n_pop s
       \<and> (n_children (?h E) \<le> 1 \<longrightarrow>
            ox = vx (position (?h rt)) \<and> oy = vy (position (?h rt))
            \<and> frames_rigid fs ?h1 ?hb
            \<and> ?hb E = ?h1 E)"
    using reach_back_from[OF lkE _ disE bk] rootp rtE by simp
  then have rt: "rt = ?rt" and ssb: "same_shape ?h ?hb" and st1: "stack s1 = pushed E fs @ stack s"
    and np1: "n_push s1 = n_push s + ?N" and nq1: "n_pop s1 = n_pop s"
    and org: "ox = vx (position (?h ?rt))" "oy = vy (position (?h ?rt))"
    and frb: "frames_rigid fs ?h1 ?hb" and hbE: "?hb E = ?h1 E"
    using nE rtE by simp_all
  have posE: "position (?hb E) = \<lparr>vx = tx, vy = ty\<rparr>" using hbE by simp
  have below: "?hb a = ?h a" if "a \<in> set (L # concat (map frame_nodes gs))" "a \<noteq> E" for a
  proof -
    have "a \<notin> set (concat (map frame_nodes fs))" using that(1) disj by blast
    then have "?hb a = ?h1 a" using frb unfolding frames_rigid_def by blast
    then show ?thesis using that(2) by (simp add: move_other)
  qed
  have out1: "?hb a = ?h a" if "a \<notin> set (L # concat (map frame_nodes (gs @ fs)))" for a
  proof -
    have "a \<notin> set (concat (map frame_nodes fs))" and "a \<noteq> E" using that Ein by auto
    then have "?hb a = ?h1 a" using frb unfolding frames_rigid_def by blast
    then show ?thesis using \<open>a \<noteq> E\<close> by (simp add: move_other)
  qed
  have rigb: "rigid_on (set (frame_nodes f)) ?h ?hb" if f: "f \<in> set fs" for f
  proof (rule rigid_on_trans)
    have "\<forall>a \<in> set (frame_nodes f). ?h1 a = ?h a"
    proof
      fix a assume "a \<in> set (frame_nodes f)"
      then have "a \<in> set (concat (map frame_nodes fs))" using f by auto
      then have "a \<noteq> E" using disE by auto
      then show "?h1 a = ?h a" by (simp add: move_other)
    qed
    then show "rigid_on (set (frame_nodes f)) ?h ?h1" by (rule rigid_on_unchanged)
    show "rigid_on (set (frame_nodes f)) ?h1 ?hb" using frb f by (simp add: frames_rigid_def)
  qed
  have nL: "n_children (?hb L) = 0"
    using leaf same_shape_fields(4)[OF ssb, of L] by (simp add: n_children_def)
  have pushedL: "pushed L (gs @ fs) = pushed E fs"
    using pushed_append[of L gs fs] pushed_no_siblings[OF ns] E by simp
  show ?thesis
  proof (cases "gs @ fs" rule: rev_cases)
    case Nil
    then have e: "gs = []" "fs = []" by simp_all
    then have EL: "E = L" "rt = L" using E rt by simp_all
    have s2: "s2 = s1\<lparr>heap := moved L 0 ox oy ?hb\<rparr>"
      using reach_forward_leaf[OF fwd[unfolded EL] nL] .
    have h2: "heap s2 a = ?hb a" if "a \<noteq> L" for a
      unfolding s2 using that by (simp add: move_other)
    have pL: "position (heap s2 L) = position (?h L)"
      unfolding s2 using org e by simp
    have c1: "same_shape ?h (heap s2)"
      unfolding s2 using same_shape_trans[OF ssb same_shape_move] by simp
    have c4: "heap s2 a = ?h a" if a: "a \<notin> set (L # concat (map frame_nodes (gs @ fs)))" for a
    proof -
      have "a \<noteq> L" using a by simp
      then show ?thesis using h2 out1[OF a] by simp
    qed
    have c7: "stack s2 = stack s" "n_push s2 = n_push s + ?N" "n_pop s2 = n_pop s + ?N"
      using s2 st1 np1 nq1 e by simp_all
    have c3: "position (heap s2 ?rt) = position (?h ?rt)" using pL e by simp
    have c8: "\<forall>a \<in> set (L # concat (map frame_nodes gs)). a \<noteq> E \<longrightarrow> ?hb a = ?h a"
      using below by blast
    have c2: "\<forall>f \<in> set fs. rigid_on (set (frame_nodes f)) ?h (heap s2)" using e by simp
    have c5: "gs @ fs \<noteq> [] \<longrightarrow> placed ?hb (heap s2) L (fst (hd (gs @ fs)))" using e by simp
    have c6: "spine_placed ?hb (heap s2) (gs @ fs)" using e by simp
    have c4': "\<forall>a. a \<notin> set (L # concat (map frame_nodes (gs @ fs))) \<longrightarrow> heap s2 a = ?h a"
      using c4 by blast
    show ?thesis
      by (rule exI[of _ ?hb]) (intro conjI r c7 c1 c2 c3 c4' ssb posE c8 c5 c6)
  next
    case (snoc ys f)
    obtain p l rr where f: "f = (p, l, rr)" by (cases f) auto
    have tp: "?rt = fst f" using snoc by (simp add: top_of_append)
    have lkb: "links ?hb L ys" "link_ok ?hb (top_of L ys) f"
      using lk links_same_shape[OF ssb] link_ok_same_shape[OF ssb] snoc
      by (simp_all add: links_append)
    have F: "\<exists>k sm. ik_reach_forward k L (length_j (?hb L))
                  (vx (position (heap sm (fst (hd (ys @ [f]))))))
                  (vy (position (heap sm (fst (hd (ys @ [f])))))) sm = Inr s2
           \<and> stack sm = stack s \<and> n_pop sm = n_pop s1 + length (pushed L (ys @ [f]))
           \<and> n_push sm = n_push s1
           \<and> frames_rigid (ys @ [f]) ?hb (heap sm)
           \<and> spine_placed ?hb (heap sm) (ys @ [f])
           \<and> position (heap sm (fst f))
               = position (moved (fst f) 0 ox oy ?hb (fst f))"
    proof (rule reach_forward_frames[OF lkb])
      show "distinct (L # concat (map frame_nodes (ys @ [f])))" using dis snoc by simp
      show "stack s1 = pushed L (ys @ [f]) @ stack s" using st1 pushedL snoc by simp
      show "ik_reach_forward fuel (fst f) 0 ox oy s1 = Inr s2" using fwd rt tp by simp
    qed
    then obtain k sm where
      last: "ik_reach_forward k L (length_j (?hb L))
                  (vx (position (heap sm (fst (hd (gs @ fs))))))
                  (vy (position (heap sm (fst (hd (gs @ fs)))))) sm = Inr s2"
      and stm: "stack sm = stack s" and npm: "n_pop sm = n_pop s1 + ?N"
      and nqm: "n_push sm = n_push s1"
      and frm: "frames_rigid (gs @ fs) ?hb (heap sm)"
      and spm: "spine_placed ?hb (heap sm) (gs @ fs)"
      and prt: "position (heap sm ?rt) = \<lparr>vx = ox, vy = oy\<rparr>"
      unfolding snoc[symmetric] pushedL tp[symmetric] by (auto simp: org)
    let ?hm = "heap sm"
    let ?pL = "fst (hd (gs @ fs))"
    let ?h2 = "moved L (length_j (?hb L)) (vx (position (?hm ?pL)))
                 (vy (position (?hm ?pL))) ?hm"
    have ssm: "same_shape ?hb ?hm" using frm by (simp add: frames_rigid_def)
    have nLm: "n_children (?hm L) = 0" using nL same_shape_fields(4)[OF ssm, of L] by simp
    have s2: "s2 = sm\<lparr>heap := ?h2\<rparr>" using reach_forward_leaf[OF last nLm] .
    have hs2: "heap s2 = ?h2" using s2 by simp
    have Lout: "L \<notin> set (concat (map frame_nodes (gs @ fs)))" using dis by simp
    have hmL: "?hm L = ?hb L" using frm Lout unfolding frames_rigid_def by blast
    have h2o: "?h2 a = ?hm a" if "a \<noteq> L" for a using that by (simp add: move_other)
    have inF: "fst g \<noteq> L" if "g \<in> set (gs @ fs)" for g
      using fst_in_frames[OF that] Lout by auto
    have "gs @ fs \<noteq> []" using snoc by simp
    then have "hd (gs @ fs) \<in> set (gs @ fs)" by (rule hd_in_set)
    then have pLne: "?pL \<noteq> L" by (rule inF)
    have rtne: "?rt \<noteq> L" using inF[of f] tp snoc by simp
    have c1: "same_shape ?h (heap s2)"
      unfolding hs2 using same_shape_trans[OF ssb same_shape_trans[OF ssm same_shape_move]] .
    have c2: "rigid_on (set (frame_nodes g)) ?h (heap s2)" if g: "g \<in> set fs" for g
    proof (rule rigid_on_trans[OF rigb[OF g]], rule rigid_on_trans)
      show "rigid_on (set (frame_nodes g)) ?hb ?hm" using frm g by (simp add: frames_rigid_def)
      have "\<forall>a \<in> set (frame_nodes g). heap s2 a = ?hm a"
      proof
        fix a assume "a \<in> set (frame_nodes g)"
        then have "a \<in> set (concat (map frame_nodes (gs @ fs)))" using g by auto
        then have "a \<noteq> L" using Lout by auto
        then show "heap s2 a = ?hm a" unfolding hs2 by (rule h2o)
      qed
      then show "rigid_on (set (frame_nodes g)) ?hm (heap s2)" by (rule rigid_on_unchanged)
    qed
    have c3: "position (heap s2 ?rt) = position (?h ?rt)"
      unfolding hs2 using h2o[OF rtne] prt org by simp
    have c4: "heap s2 a = ?h a" if a: "a \<notin> set (L # concat (map frame_nodes (gs @ fs)))" for a
    proof -
      have "a \<noteq> L" using a by simp
      then have "heap s2 a = ?hm a" unfolding hs2 by (rule h2o)
      moreover have "?hm a = ?hb a" using frm a unfolding frames_rigid_def by simp
      ultimately show ?thesis using out1[OF a] by simp
    qed
    have c5: "placed ?hb (heap s2) L ?pL"
      unfolding hs2 placed_def using h2o[OF pLne] hmL by (simp add: move_position)
    have c6: "spine_placed ?hb (heap s2) (gs @ fs)"
    proof -
      have "\<forall>g \<in> set (gs @ fs). ?hm (fst g) = heap s2 (fst g)"
        unfolding hs2 using inF h2o by simp
      then show ?thesis using spm spine_placed_cong2[of "gs @ fs" ?hm "heap s2" ?hb] by simp
    qed
    have c7: "stack s2 = stack s" "n_push s2 = n_push s + ?N" "n_pop s2 = n_pop s + ?N"
      using s2 stm npm nqm np1 nq1 by simp_all
    have c8: "\<forall>a \<in> set (L # concat (map frame_nodes gs)). a \<noteq> E \<longrightarrow> ?hb a = ?h a"
      using below by blast
    have c2': "\<forall>f \<in> set fs. rigid_on (set (frame_nodes f)) ?h (heap s2)" using c2 by blast
    have c4': "\<forall>a. a \<notin> set (L # concat (map frame_nodes (gs @ fs))) \<longrightarrow> heap s2 a = ?h a"
      using c4 by blast
    have c5': "gs @ fs \<noteq> [] \<longrightarrow> placed ?hb (heap s2) L (fst (hd (gs @ fs)))" using c5 by blast
    show ?thesis
      by (rule exI[of _ ?hb]) (intro conjI r c7 c1 c2' c3 c4' ssb posE c8 c5' c6)
  qed
qed

section \<open>Calls that return\<close>

text \<open>
  With fuel for the path and for the sibling subtrees, and room on the stack, the two passes
  run through: no null pointer is followed and the stack does not overflow. What is left is
  the division of \<^verbatim>\<open>ik_align_branch\<close>, whose divisor is zero when a joint of the path that
  carries sibling subtrees stands on its parent, before or after its move.
\<close>

lemma for_each_progress:
  assumes "I h"
    and "\<And>x h'. x \<in> set xs \<Longrightarrow> I h' \<Longrightarrow>
           B x h' = Inl DivByZero \<or> (\<exists>h''. B x h' = Inr h'' \<and> I h'')"
  shows "for_each B xs h = Inl DivByZero \<or> (\<exists>h''. for_each B xs h = Inr h'' \<and> I h'')"
  using assms
proof (induction xs arbitrary: h)
  case Nil
  then show ?case by simp
next
  case (Cons x xs)
  from Cons.prems(2)[of x h] Cons.prems(1)
  consider "B x h = Inl DivByZero" | m where "B x h = Inr m" "I m" by auto
  then show ?case
  proof cases
    case 1
    then show ?thesis by simp
  next
    case 2
    have "for_each B xs m = Inl DivByZero \<or> (\<exists>h''. for_each B xs m = Inr h'' \<and> I h'')"
      by (rule Cons.IH[OF 2(2)]) (use Cons.prems(2) in auto)
    then show ?thesis using 2(1) by simp
  qed
qed

lemma align_children_progress:
  assumes ch: "children (h p) = roots l @ Some c # roots r"
    and sib: "\<forall>t \<in> set (l @ r). parent (h (root_of t)) = Some p \<and> shaped h t"
    and dis: "distinct (p # c # concat (map nodes (l @ r)))"
    and fu: "\<forall>t \<in> set (l @ r). height t \<le> fuel"
  shows "align_children fuel p (Some c) ox oy h = Inl DivByZero
       \<or> (\<exists>h2. align_children fuel p (Some c) ox oy h = Inr h2 \<and> same_shape h h2)"
proof -
  have slot: "\<exists>t \<in> set (l @ r). x = Some (root_of t) \<and> root_of t \<noteq> c"
    if "x \<in> set (roots l @ Some c # roots r)" "x \<noteq> Some c" for x
  proof -
    from that obtain t where t: "t \<in> set (l @ r)" "x = Some (root_of t)"
      by (auto simp: roots_def)
    have "root_of t \<noteq> c" using root_in_nodes_list[OF t(1)] dis by auto
    then show ?thesis using t by blast
  qed
  show ?thesis
  proof (cases "parent (h p)")
    case None
    define B where "B = (\<lambda>child h'. if child \<noteq> Some c
               then ik_align_branch_only_translate fuel child
                      (vx (position (h' p)) - ox) (vy (position (h' p)) - oy) h'
               else Inr h')"
    have eq: "align_children fuel p (Some c) ox oy h = for_each B (roots l @ Some c # roots r) h"
      using None ch unfolding align_children_def B_def by simp
    have "for_each B (roots l @ Some c # roots r) h = Inl DivByZero
        \<or> (\<exists>h''. for_each B (roots l @ Some c # roots r) h = Inr h'' \<and> same_shape h h'')"
    proof (rule for_each_progress[where I = "same_shape h"])
      show "same_shape h h" by simp
    next
      fix x h'
      assume x: "x \<in> set (roots l @ Some c # roots r)" and ss: "same_shape h h'"
      show "B x h' = Inl DivByZero \<or> (\<exists>h''. B x h' = Inr h'' \<and> same_shape h h'')"
      proof (cases "x = Some c")
        case True
        then show ?thesis using ss by (simp add: B_def)
      next
        case False
        from slot[OF x False] obtain t where t: "t \<in> set (l @ r)" "x = Some (root_of t)"
          by blast
        have sh: "shaped h' t" using sib t(1) shaped_same_shape[OF ss] by simp
        have dt: "distinct (nodes t)" using distinct_nodes_member[OF _ t(1)] dis by simp
        have ht: "height t \<le> fuel" using fu t(1) by simp
        have "B x h' = Inr (move_all (shift (vx (position (h' p)) - ox) (vy (position (h' p)) - oy))
                              (set (nodes t)) h')"
          using False t(2) ht only_translate_subtree[OF sh dt] by (simp add: B_def)
        moreover have "same_shape h (move_all (shift (vx (position (h' p)) - ox)
                          (vy (position (h' p)) - oy)) (set (nodes t)) h')"
          by (rule same_shape_trans[OF ss]) simp
        ultimately show ?thesis by simp
      qed
    qed
    then show ?thesis unfolding eq .
  next
    case (Some pr)
    define fv where "fv = \<lparr>vx = ox - vx (position (h pr)), vy = oy - vy (position (h pr))\<rparr>"
    define tv where "tv = \<lparr>vx = vx (position (h p)) - vx (position (h pr)),
                       vy = vy (position (h p)) - vy (position (h pr))\<rparr>"
    define B where "B = (\<lambda>child h'. if child \<noteq> Some c
               then ik_align_branch fuel child fv tv h' else Inr h')"
    have eq: "align_children fuel p (Some c) ox oy h = for_each B (roots l @ Some c # roots r) h"
      using Some ch unfolding align_children_def B_def fv_def tv_def by (simp add: Let_def)
    have "for_each B (roots l @ Some c # roots r) h = Inl DivByZero
        \<or> (\<exists>h''. for_each B (roots l @ Some c # roots r) h = Inr h'' \<and> same_shape h h'')"
    proof (rule for_each_progress[where I = "same_shape h"])
      show "same_shape h h" by simp
    next
      fix x h'
      assume x: "x \<in> set (roots l @ Some c # roots r)" and ss: "same_shape h h'"
      show "B x h' = Inl DivByZero \<or> (\<exists>h''. B x h' = Inr h'' \<and> same_shape h h'')"
      proof (cases "x = Some c")
        case True
        then show ?thesis using ss by (simp add: B_def)
      next
        case False
        from slot[OF x False] obtain t where t: "t \<in> set (l @ r)" "x = Some (root_of t)"
          by blast
        have sh: "shaped h' t" using sib t(1) shaped_same_shape[OF ss] by simp
        have pt: "parent (h' (root_of t)) = Some p"
          using sib t(1) same_shape_fields(1)[OF ss] by simp
        have dt: "distinct (nodes t)" using distinct_nodes_member[OF _ t(1)] dis by simp
        have ht: "height t \<le> fuel" using fu t(1) by simp
        have "B x h' = Inl DivByZero
            \<or> B x h' = Inr (move_all (align_point (position (h' p)) (align_matrix fv tv)
                                (align_offset fv tv)) (set (nodes t)) h')"
          using False t(2) ht align_branch_subtree[OF sh dt pt, of fuel fv tv]
          by (simp add: B_def)
        moreover have "same_shape h (move_all (align_point (position (h' p)) (align_matrix fv tv)
                                (align_offset fv tv)) (set (nodes t)) h')"
          by (rule same_shape_trans[OF ss]) simp
        ultimately show ?thesis by auto
      qed
    qed
    then show ?thesis unfolding eq .
  qed
qed

lemma branch_progress:
  assumes ch: "children (h0 p) = roots l @ Some c # roots r"
    and sib: "\<forall>t \<in> set (l @ r). parent (h0 (root_of t)) = Some p \<and> shaped h0 t"
    and dis: "distinct (p # c # concat (map nodes (l @ r)))"
    and fu: "\<forall>t \<in> set (l @ r). height t \<le> fuel"
    and ss1: "same_shape h0 h1"
    and pc: "l @ r \<noteq> [] \<longrightarrow> pc = Some c"
  shows "(if n_children (h1 p) > 1 then align_children fuel p pc ox oy h1 else Inr h1)
             = Inl DivByZero
       \<or> (\<exists>h2. (if n_children (h1 p) > 1 then align_children fuel p pc ox oy h1 else Inr h1)
                  = Inr h2 \<and> same_shape h0 h2)"
proof (cases "l @ r = []")
  case True
  then have "\<not> n_children (h1 p) > 1"
    using ch same_shape_fields(4)[OF ss1, of p] by (simp add: n_children_def roots_def)
  then show ?thesis using ss1 by simp
next
  case False
  then have n: "n_children (h1 p) > 1"
    using ch same_shape_fields(4)[OF ss1, of p] by (auto simp: n_children_def roots_def)
  have "align_children fuel p (Some c) ox oy h1 = Inl DivByZero
       \<or> (\<exists>h2. align_children fuel p (Some c) ox oy h1 = Inr h2 \<and> same_shape h1 h2)"
  proof (rule align_children_progress[OF _ _ dis fu])
    show "children (h1 p) = roots l @ Some c # roots r"
      using ch same_shape_fields(2)[OF ss1] by simp
    show "\<forall>t\<in>set (l @ r). parent (h1 (root_of t)) = Some p \<and> shaped h1 t"
      using sib same_shape_fields(1)[OF ss1] shaped_same_shape[OF ss1] by simp
  qed
  then show ?thesis using n pc False same_shape_trans[OF ss1] by auto
qed

lemma reach_back_step:
  "ik_reach_back (Suc k) p tx ty d s
     = (case (if n_children (moved p d tx ty (heap s) p) > 1
              then align_children k p (ik_stack_top s)
                     (vx (position (heap s p))) (vy (position (heap s p)))
                     (moved p d tx ty (heap s))
              else Inr (moved p d tx ty (heap s))) of
          Inl e \<Rightarrow> Inl e
        | Inr h2 \<Rightarrow>
            (case parent (h2 p) of
               None \<Rightarrow> Inr (s\<lparr>heap := h2\<rparr>, p, vx (position (heap s p)), vy (position (heap s p)))
             | Some pr \<Rightarrow>
                 (case (if n_children (h2 pr) > 1 then ik_stack_push p (s\<lparr>heap := h2\<rparr>)
                        else Inr (s\<lparr>heap := h2\<rparr>)) of
                    Inl e \<Rightarrow> Inl e
                  | Inr s' \<Rightarrow>
                      ik_reach_back k pr (vx (position (h2 p))) (vy (position (h2 p)))
                        (length_j (h2 p)) s')))"
  by (simp add: Let_def move_total)

lemma reach_back_progress:
  assumes "link_ok (heap s) c f" and "links (heap s) (fst f) fs"
    and "parent (heap s (top_of (fst f) fs)) = None"
    and "distinct (c # concat (map frame_nodes (f # fs)))"
    and "snd f \<noteq> ([], []) \<longrightarrow> ik_stack_top s = Some c"
    and "length (f # fs) \<le> fuel"
    and "\<forall>g \<in> set (f # fs). \<forall>t \<in> set (fst (snd g) @ snd (snd g)).
            height t + length (f # fs) \<le> fuel"
    and "length (stack s) + length (pushed (fst f) fs) \<le> IK_STACK_SIZE"
  shows "ik_reach_back fuel (fst f) tx ty d s = Inl DivByZero
       \<or> (\<exists>res. ik_reach_back fuel (fst f) tx ty d s = Inr res)"
  using assms
proof (induction fs arbitrary: f c s tx ty d fuel)
  case Nil
  obtain p l r where f: "f = (p, l, r)" by (cases f) auto
  obtain k where k: "fuel = Suc k" using Nil.prems(6) by (cases fuel) auto
  let ?h0 = "heap s"
  let ?h1 = "moved p d tx ty ?h0"
  let ?A = "(if n_children (?h1 p) > 1
              then align_children k p (ik_stack_top s)
                     (vx (position (?h0 p))) (vy (position (?h0 p))) ?h1
              else Inr ?h1)"
  have lk: "children (?h0 p) = roots l @ Some c # roots r"
    and sib: "\<forall>t\<in>set (l @ r). parent (?h0 (root_of t)) = Some p \<and> shaped ?h0 t"
    using Nil.prems(1) f by simp_all
  have dis: "distinct (p # c # concat (map nodes (l @ r)))"
    using frame_distinct[of c p l r "[]"] Nil.prems(4) f by simp
  have fu: "\<forall>t \<in> set (l @ r). height t \<le> k" using Nil.prems(7) f k by auto
  have top: "l @ r \<noteq> [] \<longrightarrow> ik_stack_top s = Some c" using Nil.prems(5) f by auto
  have "?A = Inl DivByZero \<or> (\<exists>h2. ?A = Inr h2 \<and> same_shape ?h0 h2)"
    by (rule branch_progress[OF lk sib dis fu _ top]) simp
  then consider "?A = Inl DivByZero" | h2 where "?A = Inr h2" "same_shape ?h0 h2" by blast
  then show ?case
  proof cases
    case 1
    then show ?thesis unfolding f k fst_conv reach_back_step
      by (simp del: ik_reach_back.simps)
  next
    case 2
    have "parent (h2 p) = None"
      using Nil.prems(3) f same_shape_fields(1)[OF 2(2), of p] by simp
    then show ?thesis unfolding f k fst_conv reach_back_step using 2(1)
      by (simp del: ik_reach_back.simps)
  qed
next
  case (Cons g fs)
  obtain p l r where f: "f = (p, l, r)" by (cases f) auto
  obtain q lg rg where g: "g = (q, lg, rg)" by (cases g) auto
  obtain k where k: "fuel = Suc k" using Cons.prems(6) by (cases fuel) auto
  let ?h0 = "heap s"
  let ?h1 = "moved p d tx ty ?h0"
  let ?A = "(if n_children (?h1 p) > 1
              then align_children k p (ik_stack_top s)
                     (vx (position (?h0 p))) (vy (position (?h0 p))) ?h1
              else Inr ?h1)"
  have lk: "children (?h0 p) = roots l @ Some c # roots r"
    and sib: "\<forall>t\<in>set (l @ r). parent (?h0 (root_of t)) = Some p \<and> shaped ?h0 t"
    using Cons.prems(1) f by simp_all
  have lg: "link_ok ?h0 p g" and lks: "links ?h0 q fs"
    using Cons.prems(2) f g by simp_all
  have dis: "distinct (p # c # concat (map nodes (l @ r)))"
    using frame_distinct[of c p l r "g # fs"] Cons.prems(4) f by simp
  have dis': "distinct (p # concat (map frame_nodes (g # fs)))"
    using frame_distinct_rest[of c p l r "g # fs"] Cons.prems(4) f by simp
  have fu: "\<forall>t \<in> set (l @ r). height t \<le> k"
  proof
    fix t assume "t \<in> set (l @ r)"
    then have "height t + length (f # g # fs) \<le> fuel" using Cons.prems(7) f by auto
    then show "height t \<le> k" using k by simp
  qed
  have top: "l @ r \<noteq> [] \<longrightarrow> ik_stack_top s = Some c" using Cons.prems(5) f by auto
  have "?A = Inl DivByZero \<or> (\<exists>h2. ?A = Inr h2 \<and> same_shape ?h0 h2)"
    by (rule branch_progress[OF lk sib dis fu _ top]) simp
  then consider "?A = Inl DivByZero" | h2 where "?A = Inr h2" "same_shape ?h0 h2" by blast
  then show ?case
  proof cases
    case 1
    then show ?thesis unfolding f k fst_conv reach_back_step
      by (simp del: ik_reach_back.simps)
  next
    case 2
    have pp: "parent (h2 p) = Some q"
      using lg g same_shape_fields(1)[OF 2(2), of p] by simp
    have nq: "n_children (h2 q) > 1 \<longleftrightarrow> lg @ rg \<noteq> []"
      using lg g same_shape_fields(4)[OF 2(2), of q] by (auto simp: n_children_def roots_def)
    define s1 where "s1 = (if lg @ rg \<noteq> []
                           then s\<lparr>heap := h2, stack := p # stack s, n_push := Suc (n_push s)\<rparr>
                           else s\<lparr>heap := h2\<rparr>)"
    have room: "lg @ rg \<noteq> [] \<Longrightarrow> length (stack s) < IK_STACK_SIZE"
      using Cons.prems(8) f g by simp
    have push: "(if n_children (h2 q) > 1 then ik_stack_push p (s\<lparr>heap := h2\<rparr>)
                        else Inr (s\<lparr>heap := h2\<rparr>)) = Inr s1"
      using nq room by (simp add: s1_def ik_stack_push_def)
    have hs1: "heap s1 = h2" by (simp add: s1_def)
    have eq: "ik_reach_back fuel (fst f) tx ty d s
                = ik_reach_back k (fst g) (vx (position (h2 p))) (vy (position (h2 p)))
                        (length_j (h2 p)) s1"
      unfolding f k fst_conv reach_back_step using 2(1) pp push g
      by (simp del: ik_reach_back.simps)
    have "ik_reach_back k (fst g) (vx (position (h2 p))) (vy (position (h2 p)))
                        (length_j (h2 p)) s1 = Inl DivByZero
       \<or> (\<exists>res. ik_reach_back k (fst g) (vx (position (h2 p))) (vy (position (h2 p)))
                        (length_j (h2 p)) s1 = Inr res)"
    proof (rule Cons.IH[where c = p])
      show "link_ok (heap s1) p g" using lg link_ok_same_shape[OF 2(2)] hs1 by simp
      show "links (heap s1) (fst g) fs" using lks links_same_shape[OF 2(2)] hs1 g by simp
      show "parent (heap s1 (top_of (fst g) fs)) = None"
        using Cons.prems(3) f g same_shape_fields(1)[OF 2(2)] hs1 by simp
      show "distinct (p # concat (map frame_nodes (g # fs)))" by (rule dis')
      show "snd g \<noteq> ([], []) \<longrightarrow> ik_stack_top s1 = Some p"
        using g by (auto simp: s1_def ik_stack_top_def)
      show "length (g # fs) \<le> k" using Cons.prems(6) k by simp
      show "\<forall>g' \<in> set (g # fs). \<forall>t \<in> set (fst (snd g') @ snd (snd g')).
              height t + length (g # fs) \<le> k"
        using Cons.prems(7) k by auto
      show "length (stack s1) + length (pushed (fst g) fs) \<le> IK_STACK_SIZE"
        using Cons.prems(8) f g by (auto simp: s1_def)
    qed
    then show ?thesis unfolding eq .
  qed
qed

lemma reach_forward_step:
  "ik_reach_forward (Suc k) p d tx ty s
     = (if n_children (heap s p) = 0 then Inr (s\<lparr>heap := moved p d tx ty (heap s)\<rparr>)
        else
          (case (if n_children (heap s p) > 1
                 then (case align_children k p (ik_stack_top s)
                              (vx (position (heap s p))) (vy (position (heap s p)))
                              (moved p d tx ty (heap s)) of
                         Inl e \<Rightarrow> Inl e
                       | Inr h2 \<Rightarrow>
                           Inr (ik_stack_top s,
                                s\<lparr>stack := tl (stack s), n_pop := Suc (n_pop s), heap := h2\<rparr>))
                 else Inr (children (heap s p) ! 0, s\<lparr>heap := moved p d tx ty (heap s)\<rparr>)) of
             Inl e \<Rightarrow> Inl e
           | Inr (path_child, s2) \<Rightarrow>
               (case path_child of
                  None \<Rightarrow> Inl NullDeref
                | Some c \<Rightarrow>
                    ik_reach_forward k c (length_j (heap s2 c))
                      (vx (position (heap s2 p))) (vy (position (heap s2 p))) s2)))"
  by (simp add: Let_def move_total stack_pop_eq n_children_move children_move
      split: sum.splits)

lemma reach_forward_progress:
  assumes "links (heap s) L ys" and "link_ok (heap s) (top_of L ys) f"
    and "children (heap s L) = []"
    and "distinct (L # concat (map frame_nodes (ys @ [f])))"
    and "stack s = pushed L (ys @ [f]) @ rest"
    and "length (ys @ [f]) < fuel"
    and "\<forall>g \<in> set (ys @ [f]). \<forall>t \<in> set (fst (snd g) @ snd (snd g)).
            height t + length (ys @ [f]) \<le> fuel"
  shows "ik_reach_forward fuel (fst f) d tx ty s = Inl DivByZero
       \<or> (\<exists>s'. ik_reach_forward fuel (fst f) d tx ty s = Inr s')"
  using assms
proof (induction ys arbitrary: f s d tx ty fuel rule: rev_induct)
  case Nil
  obtain p l r where f: "f = (p, l, r)" by (cases f) auto
  obtain k where k: "fuel = Suc (Suc k)" using Nil.prems(6) by (cases fuel; cases "fuel - 1") auto
  let ?h0 = "heap s"
  let ?h1 = "moved p d tx ty ?h0"
  have lk: "children (?h0 p) = roots l @ Some L # roots r"
    and sib: "\<forall>t\<in>set (l @ r). parent (?h0 (root_of t)) = Some p \<and> shaped ?h0 t"
    using Nil.prems(2) f by simp_all
  have nc: "1 < n_children (?h0 p) \<longleftrightarrow> l @ r \<noteq> []" and nz: "n_children (?h0 p) \<noteq> 0"
    using lk by (auto simp: n_children_def roots_def)
  have st: "stack s = (if l @ r \<noteq> [] then [L] else []) @ rest"
    using Nil.prems(5) f by simp
  have top: "l @ r \<noteq> [] \<longrightarrow> ik_stack_top s = Some L"
    using st by (simp add: ik_stack_top_def)
  have dis: "distinct (p # L # concat (map nodes (l @ r)))"
    using snoc_distinct[of L "[]" p l r] Nil.prems(4) f by simp
  have fu: "\<forall>t \<in> set (l @ r). height t \<le> Suc k" using Nil.prems(7) f k by auto
  have leaf: "ik_reach_forward (Suc k) L d' x y s2 = Inr (s2\<lparr>heap := moved L d' x y (heap s2)\<rparr>)"
    if "same_shape ?h0 (heap s2)" for d' x y s2
    using Nil.prems(3) same_shape_fields(4)[OF that, of L]
    unfolding reach_forward_step by (simp add: n_children_def)
  show ?case
  proof (cases "l @ r = []")
    case True
    then have ch1: "children (?h0 p) ! 0 = Some L" using lk by (simp add: roots_def)
    have n1: "\<not> 1 < n_children (?h0 p)" using nc True by simp
    show ?thesis
      unfolding f k fst_conv reach_forward_step[of "Suc k"]
      using nz n1 ch1 leaf[of "s\<lparr>heap := ?h1\<rparr>"] by (simp del: ik_reach_forward.simps)
  next
    case False
    then have n1: "1 < n_children (?h0 p)" using nc by simp
    have tp: "ik_stack_top s = Some L" using top False by simp
    have "align_children (Suc k) p (Some L) (vx (position (?h0 p))) (vy (position (?h0 p))) ?h1
            = Inl DivByZero
       \<or> (\<exists>h2. align_children (Suc k) p (Some L) (vx (position (?h0 p))) (vy (position (?h0 p))) ?h1
                  = Inr h2 \<and> same_shape ?h1 h2)"
    proof (rule align_children_progress[OF _ _ dis fu])
      show "children (?h1 p) = roots l @ Some L # roots r" using lk by (simp add: children_move)
      show "\<forall>t\<in>set (l @ r). parent (?h1 (root_of t)) = Some p \<and> shaped ?h1 t"
        using sib same_shape_fields(1)[OF same_shape_move] shaped_same_shape[OF same_shape_move]
        by simp
    qed
    then consider
      "align_children (Suc k) p (Some L) (vx (position (?h0 p))) (vy (position (?h0 p))) ?h1
            = Inl DivByZero"
      | h2 where "align_children (Suc k) p (Some L) (vx (position (?h0 p)))
                     (vy (position (?h0 p))) ?h1 = Inr h2" "same_shape ?h1 h2"
      by blast
    then show ?thesis
    proof cases
      case 1
      then show ?thesis
        unfolding f k fst_conv reach_forward_step[of "Suc k"] using nz n1 tp
        by (simp del: ik_reach_forward.simps)
    next
      case 2
      have ss: "same_shape ?h0 h2" using same_shape_trans[OF same_shape_move 2(2)] .
      show ?thesis
        unfolding f k fst_conv reach_forward_step[of "Suc k"]
        using nz n1 tp 2(1)
          leaf[of "s\<lparr>stack := tl (stack s), n_pop := Suc (n_pop s), heap := h2\<rparr>"] ss
        by (simp del: ik_reach_forward.simps)
    qed
  qed
next
  case (snoc g ys)
  obtain p l r where f: "f = (p, l, r)" by (cases f) auto
  obtain c lg rg where g: "g = (c, lg, rg)" by (cases g) auto
  obtain k where k: "fuel = Suc k" using snoc.prems(6) by (cases fuel) auto
  let ?h0 = "heap s"
  let ?h1 = "moved p d tx ty ?h0"
  have tp: "top_of L (ys @ [g]) = c" using g by (simp add: top_of_append)
  have lk: "children (?h0 p) = roots l @ Some c # roots r"
    and sib: "\<forall>t\<in>set (l @ r). parent (?h0 (root_of t)) = Some p \<and> shaped ?h0 t"
    using snoc.prems(2) f tp by simp_all
  have lky: "links ?h0 L ys" and lkg: "link_ok ?h0 (top_of L ys) g"
    using snoc.prems(1) by (simp_all add: links_append)
  have nc: "1 < n_children (?h0 p) \<longleftrightarrow> l @ r \<noteq> []" and nz: "n_children (?h0 p) \<noteq> 0"
    using lk by (auto simp: n_children_def roots_def)
  have st: "stack s = (if l @ r \<noteq> [] then [c] else []) @ pushed L (ys @ [g]) @ rest"
    using snoc.prems(5) f tp pushed_snoc[of L "ys @ [g]" p l r] by simp
  have top: "l @ r \<noteq> [] \<longrightarrow> ik_stack_top s = Some c"
    using st by (simp add: ik_stack_top_def)
  have sd: "distinct (p # c # concat (map nodes (l @ r)))"
    "distinct (L # concat (map frame_nodes (ys @ [g])))"
    using snoc_distinct[of L "ys @ [g]" p l r] snoc.prems(4) f tp by simp_all
  have fu: "\<forall>t \<in> set (l @ r). height t \<le> k"
  proof
    fix t assume "t \<in> set (l @ r)"
    then have "height t + length ((ys @ [g]) @ [f]) \<le> fuel" using snoc.prems(7) f by auto
    then show "height t \<le> k" using k by simp
  qed
  have rec: "ik_reach_forward k (fst g) d' x y s2 = Inl DivByZero
           \<or> (\<exists>s'. ik_reach_forward k (fst g) d' x y s2 = Inr s')"
    if ss: "same_shape ?h0 (heap s2)" and st2: "stack s2 = pushed L (ys @ [g]) @ rest"
    for d' x y s2
  proof (rule snoc.IH)
    show "links (heap s2) L ys" using lky links_same_shape[OF ss] by simp
    show "link_ok (heap s2) (top_of L ys) g" using lkg link_ok_same_shape[OF ss] by simp
    show "children (heap s2 L) = []" using snoc.prems(3) same_shape_fields(2)[OF ss] by simp
    show "distinct (L # concat (map frame_nodes (ys @ [g])))" by (rule sd(2))
    show "stack s2 = pushed L (ys @ [g]) @ rest" by (rule st2)
    show "length (ys @ [g]) < k" using snoc.prems(6) k by simp
    show "\<forall>g' \<in> set (ys @ [g]). \<forall>t \<in> set (fst (snd g') @ snd (snd g')).
            height t + length (ys @ [g]) \<le> k"
      using snoc.prems(7) k by auto
  qed
  show ?case
  proof (cases "l @ r = []")
    case True
    then have ch1: "children (?h0 p) ! 0 = Some c" using lk by (simp add: roots_def)
    have n1: "\<not> 1 < n_children (?h0 p)" using nc True by simp
    have st2: "stack (s\<lparr>heap := ?h1\<rparr>) = pushed L (ys @ [g]) @ rest" using st True by simp
    show ?thesis
      unfolding f k fst_conv reach_forward_step
      using nz n1 ch1 rec[of "s\<lparr>heap := ?h1\<rparr>", OF _ st2] g
      by (simp del: ik_reach_forward.simps)
  next
    case False
    then have n1: "1 < n_children (?h0 p)" using nc by simp
    have tps: "ik_stack_top s = Some c" using top False by simp
    have "align_children k p (Some c) (vx (position (?h0 p))) (vy (position (?h0 p))) ?h1
            = Inl DivByZero
       \<or> (\<exists>h2. align_children k p (Some c) (vx (position (?h0 p))) (vy (position (?h0 p))) ?h1
                  = Inr h2 \<and> same_shape ?h1 h2)"
    proof (rule align_children_progress[OF _ _ sd(1) fu])
      show "children (?h1 p) = roots l @ Some c # roots r" using lk by (simp add: children_move)
      show "\<forall>t\<in>set (l @ r). parent (?h1 (root_of t)) = Some p \<and> shaped ?h1 t"
        using sib same_shape_fields(1)[OF same_shape_move] shaped_same_shape[OF same_shape_move]
        by simp
    qed
    then consider
      "align_children k p (Some c) (vx (position (?h0 p))) (vy (position (?h0 p))) ?h1
            = Inl DivByZero"
      | h2 where "align_children k p (Some c) (vx (position (?h0 p)))
                     (vy (position (?h0 p))) ?h1 = Inr h2" "same_shape ?h1 h2"
      by blast
    then show ?thesis
    proof cases
      case 1
      then show ?thesis
        unfolding f k fst_conv reach_forward_step using nz n1 tps
        by (simp del: ik_reach_forward.simps)
    next
      case 2
      have ss: "same_shape ?h0 h2" using same_shape_trans[OF same_shape_move 2(2)] .
      let ?s2 = "s\<lparr>stack := tl (stack s), n_pop := Suc (n_pop s), heap := h2\<rparr>"
      have st2: "stack ?s2 = pushed L (ys @ [g]) @ rest" using st False by simp
      show ?thesis
        unfolding f k fst_conv reach_forward_step
        using nz n1 tps 2(1) rec[of ?s2, OF _ st2] ss g
        by (simp del: ik_reach_forward.simps)
    qed
  qed
qed

lemma solve_total:
  assumes sp: "solved_path (heap s) L gs fs" and E: "E = top_of L gs"
    and ef: "enough_fuel gs fs fuel"
    and room: "length (stack s) + length (pushed E fs) \<le> IK_STACK_SIZE"
  shows "ik_solve fuel (Some E) tx ty s = Inl DivByZero
       \<or> (\<exists>s2. ik_solve fuel (Some E) tx ty s = Inr (s2, IK_OK))"
proof -
  have fuel: "length (gs @ fs) < fuel"
    and hts: "\<forall>g \<in> set fs. \<forall>t \<in> set (fst (snd g) @ snd (snd g)).
                height t + length (gs @ fs) < fuel"
    using ef by (simp_all add: enough_fuel_def)
  let ?h = "heap s"
  let ?h1 = "moved E 0 tx ty ?h"
  have lk: "links ?h L (gs @ fs)" and leaf: "children (?h L) = []"
    and ns: "\<forall>f \<in> set gs. snd f = ([], [])"
    and rootp: "parent (?h (top_of L (gs @ fs))) = None"
    and dis: "distinct (L # concat (map frame_nodes (gs @ fs)))"
    using sp by (simp_all add: solved_path_def)
  have lkE: "links ?h E fs" and lkL: "links ?h L gs" using lk E by (simp_all add: links_append)
  have rtE: "parent (?h (top_of E fs)) = None" using rootp E by (simp add: top_of_append)
  have disE: "distinct (E # concat (map frame_nodes fs))"
    using path_distinct_above[OF dis] E by simp
  have nE: "n_children (?h E) \<le> 1"
    unfolding E using effected_children[OF lkL _ ns] leaf by (simp add: n_children_def)
  obtain k where k: "fuel = Suc k" using fuel by (cases fuel) auto
  have nE1: "\<not> 1 < n_children (?h1 E)" using nE by (simp add: n_children_move)
  have ss: "same_shape ?h ?h1" by simp
  have bprog: "ik_reach_back fuel E tx ty 0 s = Inl DivByZero
            \<or> (\<exists>res. ik_reach_back fuel E tx ty 0 s = Inr res)"
  proof (cases fs)
    case Nil
    then have "parent (?h1 E) = None"
      using rtE same_shape_fields(1)[OF ss, of E] by simp
    then show ?thesis
      unfolding k reach_back_step using nE1 by (simp del: ik_reach_back.simps)
  next
    case (Cons f fs')
    obtain q lq rq where f: "f = (q, lq, rq)" by (cases f) auto
    have lf: "link_ok ?h E f" and lks: "links ?h q fs'" using lkE Cons f by simp_all
    have pp: "parent (?h1 E) = Some q"
      using lf f same_shape_fields(1)[OF ss, of E] by simp
    have nq: "n_children (?h1 q) > 1 \<longleftrightarrow> lq @ rq \<noteq> []"
      using lf f by (auto simp: n_children_move n_children_def roots_def)
    define s1 where "s1 = (if lq @ rq \<noteq> []
                           then s\<lparr>heap := ?h1, stack := E # stack s, n_push := Suc (n_push s)\<rparr>
                           else s\<lparr>heap := ?h1\<rparr>)"
    have rm: "lq @ rq \<noteq> [] \<Longrightarrow> length (stack s) < IK_STACK_SIZE"
      using room Cons f by simp
    have push: "(if n_children (?h1 q) > 1 then ik_stack_push E (s\<lparr>heap := ?h1\<rparr>)
                        else Inr (s\<lparr>heap := ?h1\<rparr>)) = Inr s1"
      using nq rm by (simp add: s1_def ik_stack_push_def)
    have hs1: "heap s1 = ?h1" by (simp add: s1_def)
    have eq: "ik_reach_back fuel E tx ty 0 s
                = ik_reach_back k (fst f) (vx (position (?h1 E))) (vy (position (?h1 E)))
                        (length_j (?h1 E)) s1"
      unfolding k reach_back_step using nE1 pp push f by (simp del: ik_reach_back.simps)
    have "ik_reach_back k (fst f) (vx (position (?h1 E))) (vy (position (?h1 E)))
                        (length_j (?h1 E)) s1 = Inl DivByZero
       \<or> (\<exists>res. ik_reach_back k (fst f) (vx (position (?h1 E))) (vy (position (?h1 E)))
                        (length_j (?h1 E)) s1 = Inr res)"
    proof (rule reach_back_progress[where c = E])
      show "link_ok (heap s1) E f" using lf link_ok_same_shape[OF ss] hs1 by simp
      show "links (heap s1) (fst f) fs'" using lks links_same_shape[OF ss] hs1 f by simp
      show "parent (heap s1 (top_of (fst f) fs')) = None"
        using rtE Cons same_shape_fields(1)[OF ss] hs1 by simp
      show "distinct (E # concat (map frame_nodes (f # fs')))" using disE Cons by simp
      show "snd f \<noteq> ([], []) \<longrightarrow> ik_stack_top s1 = Some E"
        using f by (auto simp: s1_def ik_stack_top_def)
      show "length (f # fs') \<le> k" using fuel k Cons by simp
      show "\<forall>g \<in> set (f # fs'). \<forall>t \<in> set (fst (snd g) @ snd (snd g)).
              height t + length (f # fs') \<le> k"
      proof (intro ballI)
        fix g t assume "g \<in> set (f # fs')" "t \<in> set (fst (snd g) @ snd (snd g))"
        then have "height t + length (gs @ fs) < fuel" using hts Cons by blast
        then show "height t + length (f # fs') \<le> k" using k Cons by simp
      qed
      show "length (stack s1) + length (pushed (fst f) fs') \<le> IK_STACK_SIZE"
        using room Cons f by (auto simp: s1_def)
    qed
    then show ?thesis unfolding eq .
  qed
  show ?thesis
  proof (cases "ik_reach_back fuel E tx ty 0 s")
    case (Inl e)
    then have "e = DivByZero" using bprog by simp
    then show ?thesis using Inl by (simp add: ik_solve_def)
  next
    case (Inr res)
    obtain s1 rt ox oy where res: "res = (s1, rt, ox, oy)" by (cases res) auto
    have bk: "ik_reach_back fuel E tx ty 0 s = Inr (s1, rt, ox, oy)" using Inr res by simp
    have B: "rt = top_of E fs" "same_shape ?h (heap s1)" "stack s1 = pushed E fs @ stack s"
      using reach_back_from[OF lkE rtE disE bk] by simp_all
    have pushedL: "pushed L (gs @ fs) = pushed E fs"
      using pushed_append[of L gs fs] pushed_no_siblings[OF ns] E by simp
    have fwd: "ik_reach_forward fuel rt 0 ox oy s1 = Inl DivByZero
             \<or> (\<exists>s2. ik_reach_forward fuel rt 0 ox oy s1 = Inr s2)"
    proof (cases "gs @ fs" rule: rev_cases)
      case Nil
      then have "rt = L" using B(1) E by simp
      moreover have "n_children (heap s1 L) = 0"
        using leaf same_shape_fields(4)[OF B(2), of L] by (simp add: n_children_def)
      ultimately show ?thesis unfolding k reach_forward_step by simp
    next
      case (snoc ys f)
      have rtf: "rt = fst f" using B(1) E snoc top_of_append[of L gs fs] by (simp add: top_of_append)
      have "ik_reach_forward fuel (fst f) 0 ox oy s1 = Inl DivByZero
          \<or> (\<exists>s'. ik_reach_forward fuel (fst f) 0 ox oy s1 = Inr s')"
      proof (rule reach_forward_progress[where L = L and ys = ys and rest = "stack s"])
        show "links (heap s1) L ys" "link_ok (heap s1) (top_of L ys) f"
          using lk links_same_shape[OF B(2)] link_ok_same_shape[OF B(2)] snoc
          by (simp_all add: links_append)
        show "children (heap s1 L) = []" using leaf same_shape_fields(2)[OF B(2)] by simp
        show "distinct (L # concat (map frame_nodes (ys @ [f])))" using dis snoc by simp
        show "stack s1 = pushed L (ys @ [f]) @ stack s" using B(3) pushedL snoc by simp
        show "length (ys @ [f]) < fuel" using fuel snoc by simp
        show "\<forall>g \<in> set (ys @ [f]). \<forall>t \<in> set (fst (snd g) @ snd (snd g)).
                height t + length (ys @ [f]) \<le> fuel"
        proof (intro ballI)
          fix g t assume g: "g \<in> set (ys @ [f])" and t: "t \<in> set (fst (snd g) @ snd (snd g))"
          have "g \<in> set gs \<or> g \<in> set fs" using g snoc[symmetric] by auto
          then have "g \<in> set fs" using ns t by auto
          then have "height t + length (gs @ fs) < fuel" using hts t by blast
          then show "height t + length (ys @ [f]) \<le> fuel" using snoc by simp
        qed
      qed
      then show ?thesis using rtf by simp
    qed
    show ?thesis
    proof (cases "ik_reach_forward fuel rt 0 ox oy s1")
      case (Inl e)
      then have "e = DivByZero" using fwd by simp
      then show ?thesis using Inl bk by (simp add: ik_solve_def)
    next
      case (Inr s2)
      then show ?thesis using bk by (simp add: ik_solve_def IK_OK_def)
    qed
  qed
qed

section \<open>The path of a tree\<close>

lemma path_up:
  "shaped h T \<Longrightarrow> distinct (nodes T) \<Longrightarrow> TE \<in> set (subtrees T) \<Longrightarrow>
     \<exists>fs. links h (root_of TE) fs \<and> top_of (root_of TE) fs = root_of T
        \<and> shaped h TE
        \<and> distinct (nodes TE @ concat (map frame_nodes fs))
        \<and> set (nodes TE @ concat (map frame_nodes fs)) = set (nodes T)"
proof (induction T)
  case (JNode a ts)
  show ?case
  proof (cases "TE = JNode a ts")
    case True
    show ?thesis
      by (rule exI[of _ "[]"]) (use True JNode.prems in simp)
  next
    case False
    then obtain t where t: "t \<in> set ts" "TE \<in> set (subtrees t)"
      using JNode.prems(3) by auto
    then obtain l r where ts: "ts = l @ t # r" by (meson split_list)
    have sh: "shaped h t" and pt: "parent (h (root_of t)) = Some a"
      using JNode.prems(1) t(1) by simp_all
    have dt: "distinct (nodes t)"
      using JNode.prems(2) distinct_nodes_member[OF _ t(1)] by simp
    from JNode.IH[OF t(1) sh dt t(2)] obtain fs where
      lk: "links h (root_of TE) fs" and tp: "top_of (root_of TE) fs = root_of t"
      and she: "shaped h TE"
      and dis: "distinct (nodes TE @ concat (map frame_nodes fs))"
      and st: "set (nodes TE @ concat (map frame_nodes fs)) = set (nodes t)"
      by blast
    have ch: "children (h a) = roots l @ Some (root_of t) # roots r"
      using JNode.prems(1) ts by (simp add: roots_def)
    have sib: "\<forall>u \<in> set (l @ r). parent (h (root_of u)) = Some a \<and> shaped h u"
      using JNode.prems(1) ts by auto
    have lf: "link_ok h (root_of t) (a, l, r)" using pt ch sib by simp
    let ?fs = "fs @ [(a, l, r)]"
    have 1: "links h (root_of TE) ?fs" using lk lf tp by (simp add: links_append)
    have 2: "top_of (root_of TE) ?fs = root_of (JNode a ts)" by (simp add: top_of_append)
    have d0: "distinct (a # concat (map nodes l) @ nodes t @ concat (map nodes r))"
      using JNode.prems(2) ts by simp
    have disj: "set (nodes t) \<inter> set (a # concat (map nodes (l @ r))) = {}"
      using d0 by auto
    have dr: "distinct (a # concat (map nodes (l @ r)))" using d0 by auto
    have 3: "distinct (nodes TE @ concat (map frame_nodes ?fs))"
    proof -
      have "distinct ((nodes TE @ concat (map frame_nodes fs)) @ (a # concat (map nodes (l @ r))))"
        unfolding distinct_append[of "nodes TE @ concat (map frame_nodes fs)"]
        using dis dr disj st by blast
      then show ?thesis by simp
    qed
    have 4: "set (nodes TE @ concat (map frame_nodes ?fs)) = set (nodes (JNode a ts))"
    proof -
      have "set (nodes TE @ concat (map frame_nodes ?fs))
              = set (nodes TE @ concat (map frame_nodes fs)) \<union> set (a # concat (map nodes (l @ r)))"
        by auto
      also have "\<dots> = set (nodes t) \<union> set (a # concat (map nodes (l @ r)))"
        using st by simp
      also have "\<dots> = set (nodes (JNode a ts))" using ts by auto
      finally show ?thesis .
    qed
    show ?thesis
      by (rule exI[of _ ?fs]) (intro conjI 1 2 she 3 4)
  qed
qed

lemma chain_down:
  "chain_tree TE \<Longrightarrow> shaped h TE \<Longrightarrow> distinct (nodes TE) \<Longrightarrow>
     \<exists>L gs. links h L gs \<and> top_of L gs = root_of TE \<and> children (h L) = []
        \<and> (\<forall>f \<in> set gs. snd f = ([], []))
        \<and> distinct (L # concat (map frame_nodes gs))
        \<and> set (L # concat (map frame_nodes gs)) = set (nodes TE)"
proof (induction TE rule: chain_tree.induct)
  case (1 a)
  show ?case
    by (rule exI[of _ a], rule exI[of _ "[]"]) (use 1 in simp)
next
  case (2 a t)
  have sh: "shaped h t" and pt: "parent (h (root_of t)) = Some a"
    and ch: "children (h a) = [Some (root_of t)]"
    using 2(3) by simp_all
  have dt: "distinct (nodes t)" and an: "a \<notin> set (nodes t)" using 2(4) by simp_all
  have ct: "chain_tree t" using 2(2) by simp
  from 2(1)[OF ct sh dt] obtain L gs where
    lk: "links h L gs" and tp: "top_of L gs = root_of t" and leaf: "children (h L) = []"
    and ns: "\<forall>f \<in> set gs. snd f = ([], [])"
    and dis: "distinct (L # concat (map frame_nodes gs))"
    and st: "set (L # concat (map frame_nodes gs)) = set (nodes t)"
    by blast
  let ?gs = "gs @ [(a, [], [])]"
  have lf: "link_ok h (root_of t) (a, [], [])" using pt ch by (simp add: roots_def)
  have 1: "links h L ?gs" using lk lf tp by (simp add: links_append)
  have 2: "top_of L ?gs = root_of (JNode a [t])" by (simp add: top_of_append)
  have 3: "\<forall>f \<in> set ?gs. snd f = ([], [])" using ns by simp
  have 4: "distinct (L # concat (map frame_nodes ?gs))"
  proof -
    have "distinct ((L # concat (map frame_nodes gs)) @ [a])"
      unfolding distinct_append[of "L # concat (map frame_nodes gs)"]
      using dis st an by simp
    then show ?thesis by simp
  qed
  have 5: "set (L # concat (map frame_nodes ?gs)) = set (nodes (JNode a [t]))"
  proof -
    have "set (L # concat (map frame_nodes ?gs)) = set (L # concat (map frame_nodes gs)) \<union> {a}"
      by auto
    then show ?thesis using st by auto
  qed
  show ?case
    by (rule exI[of _ L], rule exI[of _ ?gs]) (intro conjI 1 2 leaf 3 4 5)
next
  case (3 a t u ts)
  then show ?case by simp
qed

lemma tree_path:
  assumes tr: "is_tree h T" and rt: "parent (h (root_of T)) = None"
    and sub: "TE \<in> set (subtrees T)" and ch: "chain_tree TE"
  shows "\<exists>L gs fs. solved_path h L gs fs \<and> top_of L gs = root_of TE
           \<and> top_of L (gs @ fs) = root_of T
           \<and> set (L # concat (map frame_nodes (gs @ fs))) = set (nodes T)"
proof -
  have sh: "shaped h T" and dT: "distinct (nodes T)" using tr by (simp_all add: is_tree_def)
  from path_up[OF sh dT sub] obtain fs where
    lk: "links h (root_of TE) fs" and tp: "top_of (root_of TE) fs = root_of T"
    and she: "shaped h TE"
    and dis: "distinct (nodes TE @ concat (map frame_nodes fs))"
    and st: "set (nodes TE @ concat (map frame_nodes fs)) = set (nodes T)"
    by blast
  have dE: "distinct (nodes TE)" using dis by simp
  from chain_down[OF ch she dE] obtain L gs where
    lkg: "links h L gs" and tpg: "top_of L gs = root_of TE" and leaf: "children (h L) = []"
    and ns: "\<forall>f \<in> set gs. snd f = ([], [])"
    and disg: "distinct (L # concat (map frame_nodes gs))"
    and stg: "set (L # concat (map frame_nodes gs)) = set (nodes TE)"
    by blast
  have 1: "links h L (gs @ fs)" using lkg lk tpg by (simp add: links_append)
  have 2: "top_of L (gs @ fs) = root_of T" using tp tpg by (simp add: top_of_append)
  have 3: "distinct (L # concat (map frame_nodes (gs @ fs)))"
  proof -
    have "set (nodes TE) \<inter> set (concat (map frame_nodes fs)) = {}"
      and "distinct (concat (map frame_nodes fs))"
      using dis by auto
    then have "distinct ((L # concat (map frame_nodes gs)) @ concat (map frame_nodes fs))"
      unfolding distinct_append[of "L # concat (map frame_nodes gs)"]
      using disg stg by blast
    then show ?thesis by simp
  qed
  have 4: "set (L # concat (map frame_nodes (gs @ fs))) = set (nodes T)"
  proof -
    have "set (L # concat (map frame_nodes (gs @ fs)))
            = set (L # concat (map frame_nodes gs)) \<union> set (concat (map frame_nodes fs))"
      by auto
    then show ?thesis using stg st by auto
  qed
  have sp: "solved_path h L gs fs"
    unfolding solved_path_def using 1 leaf ns rt 2 3 by simp
  show ?thesis
    by (rule exI[of _ L], rule exI[of _ gs], rule exI[of _ fs]) (intro conjI sp tpg 2 4)
qed

section \<open>The chain of two joints\<close>

lemma solve_chain2_far:
  "ik_solve (Suc (Suc n)) (Some 1) 10 0 (idle (chain2 0 0 lx ly)) = Inr (idle (chain2 0 0 5 0), 1)"
  by (simp add: ik_solve_def idle_def ik_init_def chain2_def n_children_def move_total
      moved_def set_position_def Let_def length_xy_zero_iff fun_eq_iff)

text \<open>
  C4, as amended. On the chain of two joints with the root at \<open>(0, 0)\<close>, both made with the
  length 5, \<^verbatim>\<open>ik_solve(leaf, 10, 0)\<close> returns \<^verbatim>\<open>IK_OK\<close> wherever the leaf stood (two levels of
  recursion are enough), leaves the root at \<open>(0, 0)\<close> and puts the leaf at \<open>(5, 0)\<close>: the
  length of the root joint is never read, so the chain reaches 5, not 10.
\<close>

theorem solve_two_joints_far_target:
  "\<exists>s. ik_solve (Suc (Suc n)) (Some 1) 10 0 (idle (chain2 0 0 lx ly)) = Inr (s, IK_OK)
       \<and> position (heap s 0) = \<lparr>vx = 0, vy = 0\<rparr>
       \<and> position (heap s 1) = \<lparr>vx = 5, vy = 0\<rparr>
       \<and> dist_j (heap s) 1 0 = length_j (heap s 1)"
proof -
  have 1: "ik_solve (Suc (Suc n)) (Some 1) 10 0 (idle (chain2 0 0 lx ly))
             = Inr (idle (chain2 0 0 5 0), IK_OK)"
    unfolding IK_OK_def by (rule solve_chain2_far)
  have 2: "position (heap (idle (chain2 0 0 5 0)) 0) = \<lparr>vx = 0, vy = 0\<rparr>"
    and 3: "position (heap (idle (chain2 0 0 5 0)) 1) = \<lparr>vx = 5, vy = 0\<rparr>"
    and 4: "dist_j (heap (idle (chain2 0 0 5 0))) 1 0 = length_j (heap (idle (chain2 0 0 5 0)) 1)"
    by (simp_all add: idle_def ik_init_def chain2_def dist_j_def)
  show ?thesis using 1 2 3 4 by blast
qed

text \<open>
  The claim as stated fails on the chain whose leaf stands at \<open>(5, 0)\<close>, at its length from
  the root: no run ends with the leaf at \<open>(10, 0)\<close>.
\<close>

theorem solve_two_joints_far_target_counterexample:
  "\<not> (\<exists>s r. ik_solve 2 (Some 1) 10 0 (idle (chain2 0 0 5 0)) = Inr (s, r)
          \<and> position (heap s 1) = \<lparr>vx = 10, vy = 0\<rparr>
          \<and> position (heap s 0) = \<lparr>vx = 0, vy = 0\<rparr>)"
proof -
  have "ik_solve 2 (Some 1) 10 0 (idle (chain2 0 0 5 0)) = Inr (idle (chain2 0 0 5 0), 1)"
    using solve_chain2_far[of 0 5 0] by (simp only: numeral_2_eq_2)
  moreover have "position (heap (idle (chain2 0 0 5 0)) 1) \<noteq> \<lparr>vx = 10, vy = 0\<rparr>"
    by (simp add: idle_def ik_init_def chain2_def)
  ultimately show ?thesis by auto
qed

section \<open>The tree with a branch\<close>

lemma fork_path:
  "solved_path (heap (idle fork)) 2 [] [(1, [], [JNode 3 [JNode 4 []]]), (0, [], [])]"
  by (simp add: solved_path_def idle_def ik_init_def fork_def roots_def)


section \<open>The balance of the path stack\<close>



lemma fork_fuel:
  "enough_fuel [] [(1, [], [JNode 3 [JNode 4 []]]), (0, [], [])] 5"
  "length (pushed 2 [(1, [], [JNode 3 [JNode 4 []]]), (0, [], [])]) \<le> IK_STACK_SIZE"
  by (simp_all add: enough_fuel_def IK_STACK_SIZE_def)


section \<open>An effected joint with more than one child\<close>

lemma reach_forward_pop_empty:
  assumes "stack s = []" and "1 < n_children (heap s j)"
  shows "ik_reach_forward (Suc k) j d x y s
           = (case align_children k j None (vx (position (heap s j))) (vy (position (heap s j)))
                     (moved j d x y (heap s)) of
                Inl e \<Rightarrow> Inl e
              | Inr h2 \<Rightarrow> Inl NullDeref)"
  using assms
  by (simp add: move_total Let_def ik_stack_pop_def n_children_move split: sum.splits)

text \<open>
  C9. When the effected joint \<open>E\<close> has more than one child and the stack is empty at entry,
  no call of \<^verbatim>\<open>ik_solve\<close> returns, whatever the fuel. The reach-back pass pushes only joints
  above \<open>E\<close>, the reach-forward pass has popped them all when it stands on \<open>E\<close>; there the
  pop of the empty stack yields the null pointer, every child of \<open>E\<close> differs from it and is
  aligned as a sibling, and the recursive call dereferences it: the call on \<open>E\<close> ends in the
  fault of one of the alignments or in \<open>NullDeref\<close>.
\<close>

theorem solve_branching_effected:
  assumes lk: "links (heap s) E fs" and rt: "parent (heap s (top_of E fs)) = None"
    and dis: "distinct (E # concat (map frame_nodes fs))"
    and st: "stack s = []" and br: "1 < n_children (heap s E)"
  shows "(\<exists>e. ik_solve fuel (Some E) tx ty s = Inl e)
       \<and> (\<forall>s0 k d x y. stack s0 = [] \<and> 1 < n_children (heap s0 E) \<longrightarrow>
            ik_stack_pop s0 = (None, s0\<lparr>n_pop := Suc (n_pop s0)\<rparr>)
          \<and> ik_reach_forward (Suc k) E d x y s0
              = (case align_children k E None (vx (position (heap s0 E)))
                        (vy (position (heap s0 E))) (moved E d x y (heap s0)) of
                   Inl e \<Rightarrow> Inl e
                 | Inr h2 \<Rightarrow> Inl NullDeref))"
proof -
  have step: "ik_reach_forward k E d x y s0 \<noteq> Inr s'"
    if "stack s0 = []" "1 < n_children (heap s0 E)" for k d x y s0 s'
  proof (cases k)
    case 0
    then show ?thesis by simp
  next
    case (Suc k')
    show ?thesis
      unfolding Suc reach_forward_pop_empty[OF that] by (simp split: sum.splits)
  qed
  have "ik_solve fuel (Some E) tx ty s \<noteq> Inr res" for res
  proof
    assume run: "ik_solve fuel (Some E) tx ty s = Inr res"
    obtain s2 r where res: "res = (s2, r)" by (cases res) auto
    from solve_Inr[OF run[unfolded res]] obtain s1 rj ox oy where
      bk: "ik_reach_back fuel E tx ty 0 s = Inr (s1, rj, ox, oy)"
      and fwd: "ik_reach_forward fuel rj 0 ox oy s1 = Inr s2"
      by blast
    have B: "rj = top_of E fs" "same_shape (heap s) (heap s1)" "stack s1 = pushed E fs"
      using reach_back_from[OF lk rt dis bk] st by simp_all
    have n1: "1 < n_children (heap s1 E)"
      using br same_shape_fields(4)[OF B(2), of E] by simp
    show False
    proof (cases fs rule: rev_cases)
      case Nil
      then have "rj = E" "stack s1 = []" using B by simp_all
      then show False using step[OF _ n1] fwd by simp
    next
      case (snoc ys f)
      have lkb: "links (heap s1) E ys" "link_ok (heap s1) (top_of E ys) f"
        using lk links_same_shape[OF B(2)] link_ok_same_shape[OF B(2)] snoc
        by (simp_all add: links_append)
      have "\<exists>k sm. ik_reach_forward k E (length_j (heap s1 E))
                  (vx (position (heap sm (fst (hd (ys @ [f]))))))
                  (vy (position (heap sm (fst (hd (ys @ [f])))))) sm = Inr s2
           \<and> stack sm = [] \<and> n_pop sm = n_pop s1 + length (pushed E (ys @ [f]))
           \<and> n_push sm = n_push s1
           \<and> frames_rigid (ys @ [f]) (heap s1) (heap sm)
           \<and> spine_placed (heap s1) (heap sm) (ys @ [f])
           \<and> position (heap sm (fst f))
               = position (moved (fst f) 0 ox oy (heap s1) (fst f))"
      proof (rule reach_forward_frames[OF lkb])
        show "distinct (E # concat (map frame_nodes (ys @ [f])))" using dis snoc by simp
        show "stack s1 = pushed E (ys @ [f]) @ []" using B(3) snoc by simp
        show "ik_reach_forward fuel (fst f) 0 ox oy s1 = Inr s2"
          using fwd B(1) snoc by (simp add: top_of_append)
      qed
      then obtain k sm x y where
        last: "ik_reach_forward k E (length_j (heap s1 E)) x y sm = Inr s2"
        and stm: "stack sm = []" and frm: "frames_rigid (ys @ [f]) (heap s1) (heap sm)"
        by blast
      have "same_shape (heap s1) (heap sm)" using frm by (simp add: frames_rigid_def)
      then have "1 < n_children (heap sm E)"
        using n1 same_shape_fields(4)[of "heap s1" "heap sm" E] by simp
      then show False using step[OF stm] last by simp
    qed
  qed
  then have A: "\<exists>e. ik_solve fuel (Some E) tx ty s = Inl e"
    by (cases "ik_solve fuel (Some E) tx ty s") auto
  have P: "ik_stack_pop s0 = (None, s0\<lparr>n_pop := Suc (n_pop s0)\<rparr>)" if "stack s0 = []" for s0
    using that by (simp add: ik_stack_pop_def)
  show ?thesis
    using A P reach_forward_pop_empty by simp
qed

theorem solve_branching_effected_witness:
  "links (heap (idle fork)) 1 [(0, [], [])] \<and> parent (heap (idle fork) (top_of 1 [(0, [], [])])) = None
   \<and> distinct (1 # concat (map frame_nodes [(0 :: addr, [], [])]))
   \<and> stack (idle fork) = [] \<and> 1 < n_children (heap (idle fork) 1)
   \<and> ik_solve 5 (Some 1) 2 0 (idle fork) = Inl NullDeref
   \<and> ik_stack_pop (idle fork) = (None, (idle fork)\<lparr>n_pop := Suc (n_pop (idle fork))\<rparr>)"
proof -
  have h: "links (heap (idle fork)) 1 [(0, [], [])]"
     "parent (heap (idle fork) (top_of 1 [(0, [], [])])) = None"
     "distinct (1 # concat (map frame_nodes [(0 :: addr, [], [])]))"
     "stack (idle fork) = []" "1 < n_children (heap (idle fork) 1)"
    by (simp_all add: idle_def ik_init_def fork_def roots_def n_children_def)
  have run: "ik_solve 5 (Some 1) 2 0 (idle fork) = Inl NullDeref"
    by (simp add: ik_solve_def idle_def ik_init_def fork_def n_children_def move_total
      moved_def set_position_def Let_def length_xy_zero_iff fun_eq_iff
      numeral_eq_Suc align_children_def ik_align_branch_def fdiv_def
      ik_stack_push_def ik_stack_pop_def ik_stack_top_def align_point_def IK_STACK_SIZE_def split: if_splits)
  show ?thesis
    using solve_branching_effected[OF h, of 5 2 0] h run by simp
qed

section \<open>The sibling subtrees of the path\<close>

lemma solve_fork_back:
  "\<exists>s2. ik_solve 5 (Some 2) (- 3) 0 (idle fork) = Inr (s2, 1)
     \<and> position (heap s2 0) = \<lparr>vx = 0, vy = 0\<rparr>
     \<and> position (heap s2 1) = \<lparr>vx = - 1, vy = 0\<rparr>
     \<and> position (heap s2 2) = \<lparr>vx = - 2, vy = 0\<rparr>
     \<and> position (heap s2 3) = \<lparr>vx = - 1, vy = - 1\<rparr>
     \<and> position (heap s2 4) = \<lparr>vx = - 1, vy = - 2\<rparr>"
  by (simp add: ik_solve_def idle_def ik_init_def fork_def n_children_def move_total
      moved_def set_position_def Let_def length_xy_zero_iff fun_eq_iff
      numeral_eq_Suc align_children_def ik_align_branch_def fdiv_def
      ik_stack_push_def ik_stack_pop_def ik_stack_top_def align_point_def IK_STACK_SIZE_def split: if_splits)

lemma sibling_rigidity_run:
  assumes "solved_path (heap s) L gs fs"
    and "ik_solve fuel (Some (top_of L gs)) tx ty s = Inr (s2, r)"
    and "(p, l, rr) \<in> set fs" and "t \<in> set (l @ rr)"
  shows "(\<forall>u \<in> set (nodes t). \<forall>v \<in> set (nodes t). dist_j (heap s2) u v = dist_j (heap s) u v)
       \<and> (\<forall>u \<in> set (nodes t). dist_j (heap s2) u p = dist_j (heap s) u p)
       \<and> (\<forall>u \<in> set (nodes t). parent (heap s2 u) = parent (heap s u)
             \<and> children (heap s2 u) = children (heap s u)
             \<and> length_j (heap s2 u) = length_j (heap s u))"
proof -
  from solve_on_path[OF assms(1) refl assms(2)]
  have ss: "same_shape (heap s) (heap s2)"
    and rg: "\<forall>f \<in> set fs. rigid_on (set (frame_nodes f)) (heap s) (heap s2)"
    by auto
  have R: "rigid_on (set (frame_nodes (p, l, rr))) (heap s) (heap s2)"
    using rg assms(3) by blast
  have sub: "set (nodes t) \<subseteq> set (frame_nodes (p, l, rr))"
    using assms(4) by auto
  have pin: "p \<in> set (frame_nodes (p, l, rr))" by simp
  have 1: "\<forall>u \<in> set (nodes t). \<forall>v \<in> set (nodes t). dist_j (heap s2) u v = dist_j (heap s) u v"
    using R sub unfolding rigid_on_def by blast
  have 2: "\<forall>u \<in> set (nodes t). dist_j (heap s2) u p = dist_j (heap s) u p"
    using R sub pin unfolding rigid_on_def by blast
  have 3: "\<forall>u \<in> set (nodes t). parent (heap s2 u) = parent (heap s u)
             \<and> children (heap s2 u) = children (heap s u)
             \<and> length_j (heap s2 u) = length_j (heap s u)"
    using ss unfolding same_shape_def by simp
  show ?thesis using 1 2 3 by blast
qed

lemma solve_fork_zero:
  "ik_solve 5 (Some 2) (- 1) 0 (idle fork) = Inl DivByZero"
  by (simp add: ik_solve_def idle_def ik_init_def fork_def n_children_def move_total
      moved_def set_position_def Let_def length_xy_zero_iff fun_eq_iff
      numeral_eq_Suc align_children_def ik_align_branch_def fdiv_def
      ik_stack_push_def ik_stack_pop_def ik_stack_top_def align_point_def IK_STACK_SIZE_def split: if_splits)

lemma fork_zero_step:
  "position (moved 1 (length_j (fork 2)) (- 1) 0 fork 1) = position (fork 0)"
  by (simp add: fork_def move_position)

text \<open>
  C5 (amended). In exact arithmetic, a call of \<^verbatim>\<open>ik_solve\<close> on a tree with the path
  \<open>L, gs, fs\<close> and the effected joint \<open>top_of L gs\<close>. With enough fuel and room on the stack
  the call returns \<^verbatim>\<open>IK_OK\<close>, unless \<^verbatim>\<open>ik_align_branch\<close> divides by zero. Whenever it
  returns: let \<open>p\<close> be a joint of the path above the effected joint, and \<open>t\<close> one of the
  subtrees in its slots beside the path (in the frame \<open>(p, l, rr)\<close>: the subtrees \<open>l\<close> before
  the path child, \<open>rr\<close> after it). Then the distance of any two joints of \<open>t\<close> is the same
  before and after the call, and so is the distance of any joint of \<open>t\<close> to \<open>p\<close>: the
  subtree keeps its shape and stays fixed to its parent, which moves and turns it. The
  fields other than the positions are not written.
\<close>

theorem solve_sibling_rigidity:
  assumes "solved_path (heap s) L gs fs"
  shows "(enough_fuel gs fs fuel
           \<and> length (stack s) + length (pushed (top_of L gs) fs) \<le> IK_STACK_SIZE \<longrightarrow>
            ik_solve fuel (Some (top_of L gs)) tx ty s = Inl DivByZero
          \<or> (\<exists>s'. ik_solve fuel (Some (top_of L gs)) tx ty s = Inr (s', IK_OK)))
       \<and> (ik_solve fuel (Some (top_of L gs)) tx ty s = Inr (s2, r)
           \<and> (p, l, rr) \<in> set fs \<and> t \<in> set (l @ rr) \<longrightarrow>
            (\<forall>u \<in> set (nodes t). \<forall>v \<in> set (nodes t).
                dist_j (heap s2) u v = dist_j (heap s) u v)
          \<and> (\<forall>u \<in> set (nodes t). dist_j (heap s2) u p = dist_j (heap s) u p)
          \<and> (\<forall>u \<in> set (nodes t). parent (heap s2 u) = parent (heap s u)
                \<and> children (heap s2 u) = children (heap s u)
                \<and> length_j (heap s2 u) = length_j (heap s u)))"
proof -
  have tot: "enough_fuel gs fs fuel
           \<and> length (stack s) + length (pushed (top_of L gs) fs) \<le> IK_STACK_SIZE \<longrightarrow>
            ik_solve fuel (Some (top_of L gs)) tx ty s = Inl DivByZero
          \<or> (\<exists>s'. ik_solve fuel (Some (top_of L gs)) tx ty s = Inr (s', IK_OK))"
    using solve_total[OF assms refl, of fuel tx ty] by simp
  have rig: "ik_solve fuel (Some (top_of L gs)) tx ty s = Inr (s2, r)
           \<and> (p, l, rr) \<in> set fs \<and> t \<in> set (l @ rr) \<longrightarrow>
            (\<forall>u \<in> set (nodes t). \<forall>v \<in> set (nodes t).
                dist_j (heap s2) u v = dist_j (heap s) u v)
          \<and> (\<forall>u \<in> set (nodes t). dist_j (heap s2) u p = dist_j (heap s) u p)
          \<and> (\<forall>u \<in> set (nodes t). parent (heap s2 u) = parent (heap s u)
                \<and> children (heap s2 u) = children (heap s u)
                \<and> length_j (heap s2 u) = length_j (heap s u))"
  proof
    assume a: "ik_solve fuel (Some (top_of L gs)) tx ty s = Inr (s2, r)
           \<and> (p, l, rr) \<in> set fs \<and> t \<in> set (l @ rr)"
    from a have run: "ik_solve fuel (Some (top_of L gs)) tx ty s = Inr (s2, r)"
      and f: "(p, l, rr) \<in> set fs" and t: "t \<in> set (l @ rr)"
      by blast+
    show "(\<forall>u \<in> set (nodes t). \<forall>v \<in> set (nodes t).
                dist_j (heap s2) u v = dist_j (heap s) u v)
          \<and> (\<forall>u \<in> set (nodes t). dist_j (heap s2) u p = dist_j (heap s) u p)
          \<and> (\<forall>u \<in> set (nodes t). parent (heap s2 u) = parent (heap s u)
                \<and> children (heap s2 u) = children (heap s u)
                \<and> length_j (heap s2 u) = length_j (heap s u))"
      by (rule sibling_rigidity_run[OF assms run f t])
  qed
  show ?thesis by (rule conjI[OF tot rig])
qed

text \<open>
  C5, counterexample. In the tree \<open>fork\<close>, \<^verbatim>\<open>ik_solve(joint 2, -1, 0)\<close>: the reach-back pass
  puts the joint 2 on \<open>(-1, 0)\<close> and then the joint 1, within the length 1 of it, on
  \<open>(0, 0)\<close>, where its parent stands. The vector \<^verbatim>\<open>to\<close> of the alignment of the sibling subtree
  of the joints 3 and 4 is then zero, and so is \<^verbatim>\<open>C_denom\<close>: the cosine is the quotient of
  zero by zero, and the call has no result.
\<close>

theorem solve_sibling_rigidity_counterexample:
  "solved_path (heap (idle fork)) 2 [] [(1, [], [JNode 3 [JNode 4 []]]), (0, [], [])]
   \<and> enough_fuel [] [(1, [], [JNode 3 [JNode 4 []]]), (0, [], [])] 5
   \<and> position (moved 1 (length_j (fork 2)) (- 1) 0 fork 1) = position (fork 0)
   \<and> ik_solve 5 (Some 2) (- 1) 0 (idle fork) = Inl DivByZero"
  using fork_path fork_fuel(1) fork_zero_step solve_fork_zero by simp

theorem solve_sibling_rigidity_witness:
  "\<exists>s2. solved_path (heap (idle fork)) 2 [] [(1, [], [JNode 3 [JNode 4 []]]), (0, [], [])]
     \<and> enough_fuel [] [(1, [], [JNode 3 [JNode 4 []]]), (0, [], [])] 5
     \<and> length (stack (idle fork)) + length (pushed 2 [(1, [], [JNode 3 [JNode 4 []]]), (0, [], [])])
           \<le> IK_STACK_SIZE
     \<and> ik_solve 5 (Some 2) (- 3) 0 (idle fork) = Inr (s2, 1)
     \<and> position (heap (idle fork) 3) = \<lparr>vx = 1, vy = 1\<rparr>
     \<and> position (heap (idle fork) 4) = \<lparr>vx = 1, vy = 2\<rparr>
     \<and> position (heap s2 3) = \<lparr>vx = - 1, vy = - 1\<rparr>
     \<and> position (heap s2 4) = \<lparr>vx = - 1, vy = - 2\<rparr>
     \<and> dist_j (heap s2) 3 4 = dist_j (heap (idle fork)) 3 4
     \<and> dist_j (heap s2) 4 1 = dist_j (heap (idle fork)) 4 1"
proof -
  from solve_fork_back obtain s2 where
    run: "ik_solve 5 (Some (top_of 2 [])) (- 3) 0 (idle fork) = Inr (s2, 1)"
    and pos: "position (heap s2 3) = \<lparr>vx = - 1, vy = - 1\<rparr>"
             "position (heap s2 4) = \<lparr>vx = - 1, vy = - 2\<rparr>"
    by auto
  have org: "position (heap (idle fork) 3) = \<lparr>vx = 1, vy = 1\<rparr>"
            "position (heap (idle fork) 4) = \<lparr>vx = 1, vy = 2\<rparr>"
    by (simp_all add: idle_def ik_init_def fork_def)
  have room: "length (stack (idle fork))
                + length (pushed 2 [(1, [], [JNode 3 [JNode 4 []]]), (0, [], [])]) \<le> IK_STACK_SIZE"
    using fork_fuel(2) by (simp add: idle_def ik_init_def)
  have d: "dist_j (heap s2) 3 4 = dist_j (heap (idle fork)) 3 4
         \<and> dist_j (heap s2) 4 1 = dist_j (heap (idle fork)) 4 1"
    using solve_sibling_rigidity[OF fork_path, of 5 "- 3" 0 s2 1 1 "[]" "[JNode 3 [JNode 4 []]]"
            "JNode 3 [JNode 4 []]"] run
    by simp
  show ?thesis
    using fork_path fork_fuel(1) room run pos org d by auto
qed

section \<open>The lengths of the segments\<close>

lemma path_joint_placed:
  assumes "links hh c fs" and "parent (hh (top_of c fs)) = None"
    and "spine_placed h0 h fs" and "fs \<noteq> [] \<longrightarrow> placed h0 h c (fst (hd fs))"
    and "a \<in> set (c # map fst fs)" and "parent (hh a) = Some p"
  shows "placed h0 h a p"
  using assms
proof (induction fs arbitrary: c)
  case Nil
  then show ?case by simp
next
  case (Cons f fs)
  obtain q l r where f: "f = (q, l, r)" by (cases f) auto
  have pc: "parent (hh c) = Some q" using Cons.prems(1) f by simp
  show ?case
  proof (cases "a = c")
    case True
    then have "p = q" using pc Cons.prems(6) by simp
    then show ?thesis using Cons.prems(4) True f by simp
  next
    case False
    have sp: "spine_placed h0 h fs \<and> (fs \<noteq> [] \<longrightarrow> placed h0 h (fst f) (fst (hd fs)))"
      using Cons.prems(3) by (cases fs) simp_all
    show ?thesis
    proof (rule Cons.IH[of "fst f"])
      show "links hh (fst f) fs" using Cons.prems(1) by simp
      show "parent (hh (top_of (fst f) fs)) = None" using Cons.prems(2) by simp
      show "spine_placed h0 h fs" using sp by simp
      show "fs \<noteq> [] \<longrightarrow> placed h0 h (fst f) (fst (hd fs))" using sp by simp
      show "a \<in> set (fst f # map fst fs)" using Cons.prems(5) False by simp
      show "parent (hh a) = Some p" by (rule Cons.prems(6))
    qed
  qed
qed











section \<open>Where the effected joint ends\<close>

lemma top_of_in_spine: "top_of L gs \<in> set (L # map fst gs)"
  by (induction gs arbitrary: L) auto

lemma effected_root:
  assumes "links h E fs" and "parent (h E) = None"
  shows "fs = []"
  using assms by (cases fs) (auto split: prod.splits)

lemma step_hits_target:
  fixes a b n len px py :: real
  assumes "n \<noteq> 0" and "a \<noteq> 0 \<or> b \<noteq> 0"
  shows "(px + len * a / n = px + a \<and> py + len * b / n = py + b) = (n = len)"
proof
  assume "n = len"
  then show "px + len * a / n = px + a \<and> py + len * b / n = py + b" using assms(1) by simp
next
  assume h: "px + len * a / n = px + a \<and> py + len * b / n = py + b"
  then have "len * a = a * n" "len * b = b * n" using assms(1) by (simp_all add: field_simps)
  then have "a * (len - n) = 0" "b * (len - n) = 0" by (simp_all add: algebra_simps)
  then show "n = len" using assms(2) by auto
qed

lemma effected_placed:
  assumes sp: "solved_path (heap s) L gs fs" and E: "E = top_of L gs"
    and run: "ik_solve fuel (Some E) tx ty s = Inr (s2, r)"
    and par: "parent (heap s E) = Some P"
  shows "position (heap s2 E)
           = position (moved E (length_j (heap s E)) (vx (position (heap s2 P)))
                         (vy (position (heap s2 P)))
                         (set_position E \<lparr>vx = tx, vy = ty\<rparr> (heap s)) E)"
proof -
  from solve_on_path[OF sp E run] obtain hb where
    ssb: "same_shape (heap s) hb"
    and posE: "position (hb E) = \<lparr>vx = tx, vy = ty\<rparr>"
    and pl: "gs @ fs \<noteq> [] \<longrightarrow> placed hb (heap s2) L (fst (hd (gs @ fs)))"
    and spl: "spine_placed hb (heap s2) (gs @ fs)"
    by blast
  have lk: "links (heap s) L (gs @ fs)"
    and rootp: "parent (heap s (top_of L (gs @ fs))) = None"
    using sp by (simp_all add: solved_path_def)
  have Ein: "E \<in> set (L # map fst (gs @ fs))"
    using top_of_in_spine[of L gs] E by auto
  have "placed hb (heap s2) E P"
    by (rule path_joint_placed[OF lk rootp spl pl Ein par])
  moreover have "length_j (hb E) = length_j (heap s E)"
    using same_shape_fields[OF ssb, of E] by simp
  ultimately show ?thesis
    using posE by (simp add: placed_def move_position set_position_def)
qed

lemma effected_position_run:
  fixes s s2 :: ik_state and tx ty :: real and P :: addr
  assumes sp: "solved_path (heap s) L gs fs" and E: "E = top_of L gs"
    and run: "ik_solve fuel (Some E) tx ty s = Inr (s2, r)"
  defines "px \<equiv> vx (position (heap s2 P))" and "py \<equiv> vy (position (heap s2 P))"
  defines "n \<equiv> length_xy (tx - px) (ty - py)"
  shows "position (heap s2 (top_of L (gs @ fs))) = position (heap s (top_of L (gs @ fs)))
       \<and> (parent (heap s E) = None \<longrightarrow>
            E = top_of L (gs @ fs) \<and> position (heap s2 E) = position (heap s E))
       \<and> (parent (heap s E) = Some P \<longrightarrow>
            position (heap s2 E)
              = (if tx = px \<and> ty = py then \<lparr>vx = tx, vy = ty\<rparr>
                 else \<lparr>vx = px + length_j (heap s E) * (tx - px) / n,
                       vy = py + length_j (heap s E) * (ty - py) / n\<rparr>)
          \<and> ((position (heap s2 E) = \<lparr>vx = tx, vy = ty\<rparr>)
               = (n = 0 \<or> n = length_j (heap s E))))"
proof -
  from solve_on_path[OF sp E run]
  have rootpos: "position (heap s2 (top_of L (gs @ fs))) = position (heap s (top_of L (gs @ fs)))"
    by blast
  have lk: "links (heap s) L (gs @ fs)" using sp by (simp add: solved_path_def)
  then have lkE: "links (heap s) E fs" using E by (simp add: links_append)
  have A: "E = top_of L (gs @ fs) \<and> position (heap s2 E) = position (heap s E)"
    if "parent (heap s E) = None"
  proof -
    have "fs = []" using effected_root[OF lkE that] .
    then have "E = top_of L (gs @ fs)" using E by simp
    then show ?thesis using rootpos by simp
  qed
  have B: "position (heap s2 E)
              = (if tx = px \<and> ty = py then \<lparr>vx = tx, vy = ty\<rparr>
                 else \<lparr>vx = px + length_j (heap s E) * (tx - px) / n,
                       vy = py + length_j (heap s E) * (ty - py) / n\<rparr>)
          \<and> ((position (heap s2 E) = \<lparr>vx = tx, vy = ty\<rparr>)
               = (n = 0 \<or> n = length_j (heap s E)))"
    if par: "parent (heap s E) = Some P"
  proof -
    have q: "position (heap s2 E)
              = (if tx = px \<and> ty = py then \<lparr>vx = tx, vy = ty\<rparr>
                 else \<lparr>vx = px + length_j (heap s E) * (tx - px) / n,
                       vy = py + length_j (heap s E) * (ty - py) / n\<rparr>)"
      using effected_placed[OF sp E run par]
      unfolding px_def py_def n_def by (simp add: move_position set_position_def)
    have hit: "(position (heap s2 E) = \<lparr>vx = tx, vy = ty\<rparr>) = (n = 0 \<or> n = length_j (heap s E))"
    proof (cases "tx = px \<and> ty = py")
      case True
      then have "n = 0" unfolding n_def by (simp add: length_xy_zero_iff)
      then show ?thesis using True q by simp
    next
      case False
      then have nz: "n \<noteq> 0" unfolding n_def by (simp add: length_xy_zero_iff)
      have ab: "tx - px \<noteq> 0 \<or> ty - py \<noteq> 0" using False by auto
      have "(position (heap s2 E) = \<lparr>vx = tx, vy = ty\<rparr>)
              = (px + length_j (heap s E) * (tx - px) / n = px + (tx - px)
                 \<and> py + length_j (heap s E) * (ty - py) / n = py + (ty - py))"
        using False q by auto
      also have "\<dots> = (n = length_j (heap s E))"
        by (rule step_hits_target[OF nz ab])
      finally show ?thesis using nz by simp
    qed
    show ?thesis using q hit by blast
  qed
  show ?thesis using rootpos A B by blast
qed

text \<open>
  C1 (amended). In exact arithmetic, a call of \<^verbatim>\<open>ik_solve\<close> on a tree with the path
  \<open>L, gs, fs\<close> and the effected joint \<open>E = top_of L gs\<close>. With enough fuel and room on the
  stack the call returns \<^verbatim>\<open>IK_OK\<close>, unless \<^verbatim>\<open>ik_align_branch\<close> divides by zero. Whenever
  it returns: the root of the tree stands where it stood before the call. An effected joint
  without a parent is that root, and has not moved to the target. An effected joint with the
  parent \<open>P\<close> stands where the forward pass puts it from the target: on the target when \<open>P\<close>
  has ended there, and otherwise on the line from the final position \<open>(px, py)\<close> of \<open>P\<close>
  through the target, at its own length from \<open>(px, py)\<close>. So it stands on the target exactly
  when the target is on \<open>(px, py)\<close> or at the length of the effected joint from it: a target
  that is nearer to the parent than that length is not reached by one call.
\<close>

theorem solve_effected_position:
  fixes s s2 :: ik_state and tx ty :: real and P :: addr
  assumes sp: "solved_path (heap s) L gs fs" and E: "E = top_of L gs"
  defines "px \<equiv> vx (position (heap s2 P))" and "py \<equiv> vy (position (heap s2 P))"
  defines "n \<equiv> length_xy (tx - px) (ty - py)"
  shows "(enough_fuel gs fs fuel
           \<and> length (stack s) + length (pushed E fs) \<le> IK_STACK_SIZE \<longrightarrow>
            ik_solve fuel (Some E) tx ty s = Inl DivByZero
          \<or> (\<exists>s'. ik_solve fuel (Some E) tx ty s = Inr (s', IK_OK)))
       \<and> (ik_solve fuel (Some E) tx ty s = Inr (s2, r) \<longrightarrow>
            position (heap s2 (top_of L (gs @ fs))) = position (heap s (top_of L (gs @ fs)))
          \<and> (parent (heap s E) = None \<longrightarrow>
               E = top_of L (gs @ fs) \<and> position (heap s2 E) = position (heap s E))
          \<and> (parent (heap s E) = Some P \<longrightarrow>
               position (heap s2 E)
                 = (if tx = px \<and> ty = py then \<lparr>vx = tx, vy = ty\<rparr>
                    else \<lparr>vx = px + length_j (heap s E) * (tx - px) / n,
                          vy = py + length_j (heap s E) * (ty - py) / n\<rparr>)
             \<and> ((position (heap s2 E) = \<lparr>vx = tx, vy = ty\<rparr>)
                  = (n = 0 \<or> n = length_j (heap s E)))))"
proof -
  have tot: "enough_fuel gs fs fuel
           \<and> length (stack s) + length (pushed E fs) \<le> IK_STACK_SIZE \<longrightarrow>
            ik_solve fuel (Some E) tx ty s = Inl DivByZero
          \<or> (\<exists>s'. ik_solve fuel (Some E) tx ty s = Inr (s', IK_OK))"
    using solve_total[OF sp E, of fuel tx ty] by simp
  have res: "ik_solve fuel (Some E) tx ty s = Inr (s2, r) \<longrightarrow>
            position (heap s2 (top_of L (gs @ fs))) = position (heap s (top_of L (gs @ fs)))
          \<and> (parent (heap s E) = None \<longrightarrow>
               E = top_of L (gs @ fs) \<and> position (heap s2 E) = position (heap s E))
          \<and> (parent (heap s E) = Some P \<longrightarrow>
               position (heap s2 E)
                 = (if tx = px \<and> ty = py then \<lparr>vx = tx, vy = ty\<rparr>
                    else \<lparr>vx = px + length_j (heap s E) * (tx - px) / n,
                          vy = py + length_j (heap s E) * (ty - py) / n\<rparr>)
             \<and> ((position (heap s2 E) = \<lparr>vx = tx, vy = ty\<rparr>)
                  = (n = 0 \<or> n = length_j (heap s E))))"
  proof
    assume run: "ik_solve fuel (Some E) tx ty s = Inr (s2, r)"
    show "position (heap s2 (top_of L (gs @ fs))) = position (heap s (top_of L (gs @ fs)))
          \<and> (parent (heap s E) = None \<longrightarrow>
               E = top_of L (gs @ fs) \<and> position (heap s2 E) = position (heap s E))
          \<and> (parent (heap s E) = Some P \<longrightarrow>
               position (heap s2 E)
                 = (if tx = px \<and> ty = py then \<lparr>vx = tx, vy = ty\<rparr>
                    else \<lparr>vx = px + length_j (heap s E) * (tx - px) / n,
                          vy = py + length_j (heap s E) * (ty - py) / n\<rparr>)
             \<and> ((position (heap s2 E) = \<lparr>vx = tx, vy = ty\<rparr>)
                  = (n = 0 \<or> n = length_j (heap s E))))"
      unfolding px_def py_def n_def by (rule effected_position_run[OF sp E run])
  qed
  show ?thesis by (rule conjI[OF tot res])
qed

lemma chain2_path: "solved_path (heap (idle (chain2 rx ry lx ly))) 1 [] [(0, [], [])]"
  by (simp add: solved_path_def idle_def ik_init_def chain2_def roots_def)

lemma solve_chain2_near:
  "ik_solve (Suc (Suc n)) (Some 1) 3 0 (idle (chain2 0 0 lx ly)) = Inr (idle (chain2 0 0 5 0), 1)"
  by (simp add: ik_solve_def idle_def ik_init_def chain2_def n_children_def move_total
      moved_def set_position_def Let_def length_xy_zero_iff fun_eq_iff)

text \<open>
  C1, counterexample: the example of the claim. In the chain of two joints with the root at
  \<open>(0, 0)\<close> and the leaf of length 5, \<^verbatim>\<open>ik_solve(leaf, 3, 0)\<close> leaves the leaf at \<open>(5, 0)\<close>,
  at its length from the root, and not on the target \<open>(3, 0)\<close>.
\<close>

theorem solve_effected_position_counterexample:
  "ik_solve 2 (Some 1) 3 0 (idle (chain2 0 0 0 5)) = Inr (idle (chain2 0 0 5 0), IK_OK)
   \<and> position (heap (idle (chain2 0 0 5 0)) 0) = \<lparr>vx = 0, vy = 0\<rparr>
   \<and> position (heap (idle (chain2 0 0 5 0)) 1) = \<lparr>vx = 5, vy = 0\<rparr>
   \<and> position (heap (idle (chain2 0 0 5 0)) 1) \<noteq> \<lparr>vx = 3, vy = 0\<rparr>"
proof -
  have "ik_solve 2 (Some 1) 3 0 (idle (chain2 0 0 0 5)) = Inr (idle (chain2 0 0 5 0), IK_OK)"
    using solve_chain2_near[of 0 0 5] by (simp only: numeral_2_eq_2 IK_OK_def)
  moreover have "position (heap (idle (chain2 0 0 5 0)) 0) = \<lparr>vx = 0, vy = 0\<rparr>"
    "position (heap (idle (chain2 0 0 5 0)) 1) = \<lparr>vx = 5, vy = 0\<rparr>"
    "position (heap (idle (chain2 0 0 5 0)) 1) \<noteq> \<lparr>vx = 3, vy = 0\<rparr>"
    by (simp_all add: idle_def ik_init_def chain2_def)
  ultimately show ?thesis by blast
qed

lemma chain2_fuel:
  "enough_fuel [] [(0, [], [])] 2"
  "length (stack (idle h)) + length (pushed 1 [(0, [], [])]) \<le> IK_STACK_SIZE"
  by (simp_all add: enough_fuel_def IK_STACK_SIZE_def idle_def ik_init_def)

theorem solve_effected_position_witness:
  "\<exists>s2. solved_path (heap (idle (chain2 0 0 5 0))) 1 [] [(0, [], [])]
      \<and> enough_fuel [] [(0, [], [])] 2
      \<and> length (stack (idle (chain2 0 0 5 0))) + length (pushed 1 [(0, [], [])]) \<le> IK_STACK_SIZE
      \<and> ik_solve 2 (Some 1) 3 0 (idle (chain2 0 0 5 0)) = Inr (s2, 1)
      \<and> parent (heap (idle (chain2 0 0 5 0)) 1) = Some 0
      \<and> position (heap s2 0) = \<lparr>vx = 0, vy = 0\<rparr>
      \<and> length_xy (3 - vx (position (heap s2 0))) (0 - vy (position (heap s2 0))) = 3
      \<and> length_j (heap (idle (chain2 0 0 5 0)) 1) = 5
      \<and> position (heap s2 1) \<noteq> \<lparr>vx = 3, vy = 0\<rparr>"
proof -
  let ?s = "idle (chain2 0 0 5 0)"
  have run: "ik_solve 2 (Some 1) 3 0 ?s = Inr (?s, 1)"
    using solve_chain2_near[of 0 5 0] by (simp only: numeral_2_eq_2)
  have f: "parent (heap ?s 1) = Some 0" "position (heap ?s 0) = \<lparr>vx = 0, vy = 0\<rparr>"
    "length_j (heap ?s 1) = 5" "top_of 1 ([] @ [(0, [], [])]) = (0 :: addr)"
    "top_of 1 [] = (1 :: addr)"
    by (simp_all add: idle_def ik_init_def chain2_def)
  have n: "length_xy (3 - vx (position (heap ?s 0))) (0 - vy (position (heap ?s 0))) = 3"
    by (simp add: f)
  have "position (heap ?s 1) \<noteq> \<lparr>vx = 3, vy = 0\<rparr>"
    using solve_effected_position[OF chain2_path f(5)[symmetric],
        where fuel = 2 and tx = 3 and ty = 0 and ?s2.0 = "?s" and r = 1 and P = 0] run f n
    by simp
  then show ?thesis using chain2_path chain2_fuel run f n by blast
qed

section \<open>A target out of reach\<close>







end
